theory Spec2Isabelle
  imports Complex_Main "HOL-Library.Multiset"
begin

section \<open>Python values shared by the operations of \<^verbatim>\<open>main.py\<close>\<close>

text \<open>
  Exceptions are values. Only the kind of exception matters to the control flow of the
  program: every handler in \<^verbatim>\<open>main.py\<close> is \<^verbatim>\<open>except Exception\<close>.
\<close>

datatype error = ZeroDivisionError | OSError | LibraryError

text \<open>
  A value stored in a keyword dictionary passed to \<^verbatim>\<open>Document.save\<close>:
  a Python \<^verbatim>\<open>bool\<close> or \<^verbatim>\<open>int\<close>.
\<close>

datatype pyval = B bool | I int

type_synonym save_flags = "(string \<times> pyval) list"

section \<open>Strings, paths and decimal numbers\<close>

text \<open>
  A Python \<^verbatim>\<open>str\<close> is modelled by \<^typ>\<open>string\<close>, a list of 8-bit characters: file names
  are read as sequences of code points below 256. Of the library's string functions only
  what the program uses is modelled.

  \<^verbatim>\<open>str.lower\<close> and \<^verbatim>\<open>str.upper\<close> on the letters A to Z; every other character is
  left as it is. The program only compares lowered text with ASCII literals.
\<close>

definition lower_chr :: "char \<Rightarrow> char" where
  "lower_chr c =
     (case map_of (zip ''ABCDEFGHIJKLMNOPQRSTUVWXYZ'' ''abcdefghijklmnopqrstuvwxyz'') c of
        None \<Rightarrow> c | Some l \<Rightarrow> l)"

definition upper_chr :: "char \<Rightarrow> char" where
  "upper_chr c =
     (case map_of (zip ''abcdefghijklmnopqrstuvwxyz'' ''ABCDEFGHIJKLMNOPQRSTUVWXYZ'') c of
        None \<Rightarrow> c | Some u \<Rightarrow> u)"

definition lower :: "string \<Rightarrow> string" where
  "lower s = map lower_chr s"

definition upper :: "string \<Rightarrow> string" where
  "upper s = map upper_chr s"

definition endswith :: "string \<Rightarrow> string \<Rightarrow> bool" where
  "endswith s suffix =
     (length suffix \<le> length s \<and> drop (length s - length suffix) s = suffix)"

text \<open>\<^verbatim>\<open>s.rstrip(chars)\<close>: drop every trailing character that is in \<^verbatim>\<open>chars\<close>.\<close>

definition rstrip :: "string \<Rightarrow> string \<Rightarrow> string" where
  "rstrip chars s = rev (dropWhile (\<lambda>c. c \<in> set chars) (rev s))"

text \<open>\<^verbatim>\<open>p.rfind(c)\<close>: the index of the last occurrence of \<^verbatim>\<open>c\<close>, or \<^verbatim>\<open>-1\<close>.\<close>

definition rfind :: "char \<Rightarrow> string \<Rightarrow> int" where
  "rfind c p =
     (if c \<in> set p then int (length p) - 1 - int (length (takeWhile (\<lambda>x. x \<noteq> c) (rev p)))
      else - 1)"

text \<open>
  \<^verbatim>\<open>os.path\<close> on POSIX. \<^verbatim>\<open>basename(p)\<close> is \<^verbatim>\<open>p[p.rfind('/') + 1:]\<close>.
  \<^verbatim>\<open>splitext(p)\<close> splits at the last dot that comes after the last slash, unless only dots
  stand between that slash and the dot (a leading dot does not start an extension).
  \<^verbatim>\<open>join(a, b)\<close> for two components. \<^verbatim>\<open>split(p)\<close> gives the head before the last
  slash, without its trailing slashes unless it consists of slashes only, and the tail.
\<close>

definition basename :: "string \<Rightarrow> string" where
  "basename p = drop (nat (rfind CHR ''/'' p + 1)) p"

definition splitext :: "string \<Rightarrow> string \<times> string" where
  "splitext p =
     (let sepIndex = rfind CHR ''/'' p;
          dotIndex = rfind CHR ''.'' p
      in if dotIndex > sepIndex \<and>
            filter (\<lambda>c. c \<noteq> CHR ''.'')
              (take (nat (dotIndex - (sepIndex + 1))) (drop (nat (sepIndex + 1)) p)) \<noteq> []
         then (take (nat dotIndex) p, drop (nat dotIndex) p)
         else (p, []))"

definition join :: "string \<Rightarrow> string \<Rightarrow> string" where
  "join a b =
     (if b \<noteq> [] \<and> hd b = CHR ''/'' then b
      else if a = [] \<or> last a = CHR ''/'' then a @ b
      else a @ ''/'' @ b)"

definition split_path :: "string \<Rightarrow> string \<times> string" where
  "split_path p =
     (let i = nat (rfind CHR ''/'' p + 1);
          head = take i p;
          tail = drop i p
      in (if head \<noteq> [] \<and> head \<noteq> replicate (length head) CHR ''/''
          then rstrip ''/'' head else head, tail))"

text \<open>
  Decimal numbers. \<^verbatim>\<open>str(n)\<close> for an int that is not negative (page numbers and image
  indices count up from 1), and \<^verbatim>\<open>int(s)\<close> for a text that the pattern \<^verbatim>\<open>\d+\<close> has
  matched, so that it holds digits only.
\<close>

definition digit_chr :: "nat \<Rightarrow> char" where
  "digit_chr d = ''0123456789'' ! d"

definition is_digit :: "char \<Rightarrow> bool" where
  "is_digit c = (c \<in> set ''0123456789'')"

definition digit_val :: "char \<Rightarrow> nat" where
  "digit_val c = of_char c - 48"

fun str :: "nat \<Rightarrow> string" where
  "str n = (if n < 10 then [digit_chr n] else str (n div 10) @ [digit_chr (n mod 10)])"

definition py_int :: "string \<Rightarrow> nat" where
  "py_int s = foldl (\<lambda>acc c. 10 * acc + digit_val c) 0 s"

section \<open>Regular expressions as the program uses them\<close>

text \<open>
  Python's \<^verbatim>\<open>re\<close> is a backtracking matcher. The model keeps its order of preference:
  \<open>run r st\<close> lists every way \<open>r\<close> can match at the front of the input, the one Python
  tries first at the head. A state is the input that is left and the text of group 1, if
  it has been captured. Literals are compared after lowering both sides (the flag
  \<^verbatim>\<open>re.IGNORECASE\<close>), \<^verbatim>\<open>.\<close> is any character but the newline, \<^verbatim>\<open>\d\<close> a decimal
  digit, \<open>Many k m\<close> the greedy repetition of a character class, at least \<open>m\<close> times
  (\<^verbatim>\<open>.*\<close> is \<open>Many AnyChar 0\<close>, \<^verbatim>\<open>\d+\<close> is \<open>Many DigitChar 1\<close>), and \<^verbatim>\<open>$\<close> holds at
  the end of the input and before a newline that ends it.
\<close>

datatype cclass = AnyChar | DigitChar

datatype regex =
    Lit string
  | One cclass
  | Many cclass nat
  | Seq regex regex
  | Alt regex regex
  | Group regex
  | EndAnchor

fun in_class :: "cclass \<Rightarrow> char \<Rightarrow> bool" where
  "in_class AnyChar c = (c \<noteq> CHR 0x0A)"
| "in_class DigitChar c = is_digit c"

type_synonym mstate = "string \<times> string option"

fun run :: "regex \<Rightarrow> mstate \<Rightarrow> mstate list" where
  "run (Lit w) st =
     (if length w \<le> length (fst st) \<and> lower (take (length w) (fst st)) = lower w
      then [(drop (length w) (fst st), snd st)] else [])"
| "run (One k) st =
     (case fst st of [] \<Rightarrow> [] | c # r \<Rightarrow> if in_class k c then [(r, snd st)] else [])"
| "run (Many k m) st =
     map (\<lambda>j. (drop j (fst st), snd st))
       (rev [m ..< Suc (length (takeWhile (in_class k) (fst st)))])"
| "run (Seq a b) st = concat (map (run b) (run a st))"
| "run (Alt a b) st = run a st @ run b st"
| "run (Group a) st =
     map (\<lambda>st'. (fst st', Some (take (length (fst st) - length (fst st')) (fst st))))
       (run a st)"
| "run EndAnchor st =
     (if fst st = [] \<or> fst st = [CHR 0x0A] then [st] else [])"

text \<open>
  \<^verbatim>\<open>pattern.match(s)\<close>: the first way to match at the start of \<open>s\<close>, as the text of
  group 1; \<open>None\<close> when there is none.
\<close>

definition re_match :: "regex \<Rightarrow> string \<Rightarrow> string option option" where
  "re_match r s = (case run r (s, None) of [] \<Rightarrow> None | st # _ \<Rightarrow> Some (snd st))"

section \<open>The files and libraries around the program\<close>

text \<open>
  An image is its rows of pixels. An embedded image of a PDF is a pixmap, of which the
  program reads the size, the number of components and the alpha flag. A page of a PDF
  that is read has a rectangle and embedded images; a page that the program builds has a
  size in points and the image stream inserted into it, if the insertion came through.
\<close>

type_synonym image = "nat list list"

definition img_width :: "image \<Rightarrow> nat" where
  "img_width img = (case img of [] \<Rightarrow> 0 | row # _ \<Rightarrow> length row)"

definition img_height :: "image \<Rightarrow> nat" where
  "img_height img = length img"

record pixmap =
  pix_width :: int
  pix_height :: int
  pix_n :: int
  pix_alpha :: int

record page =
  rect_width :: rat
  rect_height :: rat
  embedded :: "pixmap list"

type_synonym document = "page list"

section \<open>Advanced compression: the render scale (lines 443 to 451)\<close>

text \<open>
  \<^verbatim>\<open>page_rect.width\<close> and \<^verbatim>\<open>page_rect.height\<close> are floats, \<^verbatim>\<open>max_width\<close> and
  \<^verbatim>\<open>max_height\<close> are ints (argparse \<^verbatim>\<open>type=int\<close>). The floats are modelled by exact
  rationals: the model has the comparisons and the selection of the source and leaves the
  rounding of the one division out.

  \<^verbatim>\<open>scale_x = max_width / page_width if page_width > max_width else 1.0\<close>:
  the division is only evaluated when the guard holds, and Python raises
  \<^verbatim>\<open>ZeroDivisionError\<close> for a zero divisor.
\<close>

definition scale_axis :: "int \<Rightarrow> rat \<Rightarrow> error + rat" where
  "scale_axis max_dim page_dim =
     (if page_dim > of_int max_dim
      then (if page_dim = 0 then Inl ZeroDivisionError else Inr (of_int max_dim / page_dim))
      else Inr 1)"

text \<open>\<^verbatim>\<open>scale = min(scale_x, scale_y, 2.0)\<close>\<close>

definition render_scale :: "int \<Rightarrow> int \<Rightarrow> rat \<Rightarrow> rat \<Rightarrow> error + rat" where
  "render_scale max_width max_height page_width page_height =
     (case scale_axis max_width page_width of
        Inl e \<Rightarrow> Inl e
      | Inr scale_x \<Rightarrow>
          (case scale_axis max_height page_height of
             Inl e \<Rightarrow> Inl e
           | Inr scale_y \<Rightarrow> Inr (min scale_x (min scale_y 2))))"

section \<open>Advanced compression: the per-page image pipeline (lines 463 to 490)\<close>

text \<open>
  The operations applied to the rendered page image, in program order, as a list of
  the library calls made. The conversion of line 464 depends on the mode of the rendered
  image and is left to the caller of this list; everything from line 469 on depends on
  \<^verbatim>\<open>image_quality\<close> only.
\<close>

datatype image_op =
    Quantize nat                  \<comment> \<open>\<^verbatim>\<open>quantize(colors=n, method=MEDIANCUT)\<close>\<close>
  | ConvertRGB                    \<comment> \<open>\<^verbatim>\<open>convert('RGB')\<close>\<close>
  | GaussianBlur rat              \<comment> \<open>\<^verbatim>\<open>filter(ImageFilter.GaussianBlur(radius=r))\<close>\<close>

record jpeg_options =
  quality :: int
  optimize :: bool
  progressive :: bool
  subsampling :: int

definition quality_ops :: "int \<Rightarrow> image_op list" where
  "quality_ops image_quality =
     (if image_quality < 50 then [Quantize 256, ConvertRGB] else []) @
     (if image_quality < 40 then [GaussianBlur (1 / 2)] else [])"

definition jpeg_save_options :: "int \<Rightarrow> jpeg_options" where
  "jpeg_save_options image_quality =
     \<lparr> quality = image_quality, optimize = True, progressive = True,
       subsampling = (if image_quality < 50 then 2 else 0) \<rparr>"


datatype stream = Png image | Jpeg image "image_op list" jpeg_options

record new_page =
  np_width :: rat
  np_height :: rat
  np_stream :: "stream option"

text \<open>
  What the operating system and the two libraries answer. A call that raises answers
  \<open>None\<close> or \<open>False\<close>; the program never looks at the kind of exception.
\<close>

record world =
  path_exists :: "string \<Rightarrow> bool"             \<comment> \<open>\<^verbatim>\<open>os.path.exists\<close>\<close>
  listdir :: "string \<Rightarrow> string list"          \<comment> \<open>the names in a directory, in listing order\<close>
  getsize :: "string \<Rightarrow> nat option"           \<comment> \<open>\<^verbatim>\<open>os.path.getsize\<close>\<close>
  pdfs :: "string \<rightharpoonup> document"                \<comment> \<open>\<^verbatim>\<open>fitz.open(path)\<close>\<close>
  images :: "string \<rightharpoonup> image"                 \<comment> \<open>\<^verbatim>\<open>Image.open(path)\<close>\<close>
  can_write :: "string \<Rightarrow> bool"               \<comment> \<open>whether saving to the path comes through\<close>
  render :: "page \<Rightarrow> rat \<Rightarrow> image option"     \<comment> \<open>\<^verbatim>\<open>get_pixmap\<close>, then the page as PIL image\<close>
  encode_ok :: "stream \<Rightarrow> bool"               \<comment> \<open>whether the image operations and the encoding come through\<close>
  insert_ok :: "stream \<Rightarrow> bool"               \<comment> \<open>whether \<^verbatim>\<open>insert_image\<close> comes through\<close>

text \<open>
  What an operation leaves behind: the value it returns, the documents it saved (path,
  pages, keyword flags of \<^verbatim>\<open>save\<close>) and the failure messages it printed. Progress and
  warning lines are not modelled.
\<close>

datatype report =
    NotFound
  | NoImageFiles
  | NoPagePattern
  | NoPagesAdded
  | InvalidLevel
  | ErrorCreating error
  | ErrorCompressing error
  | ErrorAdvanced error

datatype 'd event = Saved string 'd save_flags | Reported report

record 'd outcome =
  ret :: "string option"
  events :: "'d event list"

section \<open>Finding the image files of a directory (lines 155 to 162 and 212 to 218)\<close>

text \<open>
  \<^verbatim>\<open>glob.glob(os.path.join(directory_path, extension))\<close> for a pattern \<^verbatim>\<open>*.ext\<close> and a
  directory path without wildcard characters: the names of the directory that end with
  \<^verbatim>\<open>.ext\<close> and do not start with a dot, each joined to the directory part of the pattern.
  On POSIX the comparison is case sensitive.
\<close>

definition image_extensions :: "string list" where
  "image_extensions = [''*.png'', ''*.jpg'', ''*.jpeg'', ''*.gif'', ''*.bmp'', ''*.tiff'', ''*.webp'']"

definition glob :: "world \<Rightarrow> string \<Rightarrow> string list" where
  "glob w pathname =
     (let (dirname, pattern) = split_path pathname;
          names = filter (\<lambda>name. name \<noteq> [] \<and> hd name \<noteq> CHR ''.'' \<and> endswith name (tl pattern))
                    (listdir w dirname)
      in if dirname = [] then names else map (join dirname) names)"

definition find_image_files :: "world \<Rightarrow> string \<Rightarrow> string list" where
  "find_image_files w directory_path =
     concat (map (\<lambda>extension.
                    glob w (join directory_path extension) @
                    glob w (join directory_path (upper extension)))
                 image_extensions)"

section \<open>Image extraction (lines 80 to 126)\<close>

text \<open>
  A \<^verbatim>\<open>for\<close> loop whose body may raise: the first exception ends the loop and is the
  result.
\<close>

fun for_each :: "('a \<Rightarrow> 's \<Rightarrow> error + 's) \<Rightarrow> 'a list \<Rightarrow> 's \<Rightarrow> error + 's" where
  "for_each body [] st = Inr st"
| "for_each body (x # xs) st =
     (case body x st of Inl e \<Rightarrow> Inl e | Inr st' \<Rightarrow> for_each body xs st')"

text \<open>
  \<^verbatim>\<open>fitz.Pixmap(fitz.csRGB, pix)\<close> keeps the size and the alpha flag and has three colour
  components. The loop body handles the image \<open>img_index\<close> of page \<open>page_num\<close> (both
  count from 0, as \<^verbatim>\<open>range\<close> and \<^verbatim>\<open>enumerate\<close> do); the state is the list of files
  written so far, each with what was saved into it, and \<^verbatim>\<open>image_count\<close>. The function
  has no handler: when \<^verbatim>\<open>makedirs\<close>, \<^verbatim>\<open>fitz.open\<close> or \<^verbatim>\<open>pix.save\<close> raises, it returns
  nothing.
\<close>

definition to_rgb :: "pixmap \<Rightarrow> pixmap" where
  "to_rgb pix = pix\<lparr>pix_n := 3 + pix_alpha pix\<rparr>"

definition img_filename :: "string \<Rightarrow> nat \<Rightarrow> nat \<Rightarrow> string" where
  "img_filename pdf_name page_num img_index =
     pdf_name @ ''_page'' @ str (page_num + 1) @ ''_img'' @ str (img_index + 1) @ ''.png''"

definition extract_image ::
  "world \<Rightarrow> string \<Rightarrow> string \<Rightarrow> int \<Rightarrow> int \<Rightarrow> nat \<Rightarrow> nat \<times> pixmap \<Rightarrow>
   (string \<times> pixmap) list \<times> nat \<Rightarrow> error + ((string \<times> pixmap) list \<times> nat)" where
  "extract_image w pdf_name output_folder min_width min_height page_num indexed st =
     (let img_index = fst indexed; pix = snd indexed; written = fst st; image_count = snd st
      in if pix_width pix \<ge> min_width \<and> pix_height pix \<ge> min_height
         then let pix' = (if pix_n pix - pix_alpha pix = 4 then to_rgb pix else pix);
                  img_path = join output_folder (img_filename pdf_name page_num img_index)
              in if can_write w img_path
                 then Inr (written @ [(img_path, pix')], image_count + 1)
                 else Inl LibraryError
         else Inr (written, image_count))"

definition extract_page ::
  "world \<Rightarrow> string \<Rightarrow> string \<Rightarrow> int \<Rightarrow> int \<Rightarrow> nat \<times> page \<Rightarrow>
   (string \<times> pixmap) list \<times> nat \<Rightarrow> error + ((string \<times> pixmap) list \<times> nat)" where
  "extract_page w pdf_name output_folder min_width min_height numbered st =
     for_each (extract_image w pdf_name output_folder min_width min_height (fst numbered))
       (enumerate 0 (embedded (snd numbered))) st"

definition extract_images_with_quality_filter ::
  "world \<Rightarrow> string \<Rightarrow> string \<Rightarrow> int \<Rightarrow> int \<Rightarrow> error + ((string \<times> pixmap) list \<times> nat)" where
  "extract_images_with_quality_filter w pdf_path output_folder min_width min_height =
     (if \<not> path_exists w output_folder \<and> \<not> can_write w output_folder then Inl OSError
      else
        case pdfs w pdf_path of
          None \<Rightarrow> Inl LibraryError
        | Some pdf_document \<Rightarrow>
            let pdf_name = fst (splitext (basename pdf_path))
            in for_each (extract_page w pdf_name output_folder min_width min_height)
                 (enumerate 0 pdf_document) ([], 0))"

section \<open>Image rotation (lines 128 to 194)\<close>

text \<open>
  \<^verbatim>\<open>img.rotate(angle, expand=True)\<close> turns counter-clockwise by \<^verbatim>\<open>angle\<close> degrees; the
  program calls it with 90 and -90 only.
\<close>

definition rotate_image :: "int \<Rightarrow> image \<Rightarrow> image" where
  "rotate_image angle img =
     (if angle = 90 then rev (transpose img)
      else if angle = - 90 then map rev (transpose img)
      else img)"

definition rotated_path :: "string \<Rightarrow> string \<Rightarrow> string" where
  "rotated_path direction_text image_path =
     (let (name, ext) = splitext image_path
      in name @ ''_rotated_'' @ direction_text @ ext)"

text \<open>
  The loop of lines 171 to 192. Saving replaces what \<^verbatim>\<open>Image.open\<close> reads at the
  target path from then on; an exception in the body leaves the files and the counter as
  they are and the loop goes on.
\<close>

fun rotate_loop ::
  "int \<Rightarrow> string \<Rightarrow> bool \<Rightarrow> string list \<Rightarrow> world \<times> nat \<Rightarrow> world \<times> nat" where
  "rotate_loop angle direction_text overwrite [] st = st"
| "rotate_loop angle direction_text overwrite (image_path # rest) st =
     (let w = fst st; rotated_count = snd st
      in case images w image_path of
           None \<Rightarrow> rotate_loop angle direction_text overwrite rest st
         | Some img \<Rightarrow>
             let rotated_img = rotate_image angle img;
                 target = (if overwrite then image_path
                           else rotated_path direction_text image_path)
             in if can_write w target
                then rotate_loop angle direction_text overwrite rest
                       (w\<lparr>images := (images w)(target \<mapsto> rotated_img)\<rparr>, rotated_count + 1)
                else rotate_loop angle direction_text overwrite rest st)"

definition rotate_images_in_directory ::
  "world \<Rightarrow> string \<Rightarrow> string \<Rightarrow> bool \<Rightarrow> world \<times> nat" where
  "rotate_images_in_directory w directory_path direction overwrite =
     (if \<not> path_exists w directory_path then (w, 0)
      else if lower direction \<in> set [''clockwise'', ''cw''] then
        (let image_files = find_image_files w directory_path
         in if image_files = [] then (w, 0)
            else rotate_loop (- 90) ''clockwise'' overwrite image_files (w, 0))
      else if lower direction \<in> set [''anticlockwise'', ''counterclockwise'', ''acw'', ''ccw''] then
        (let image_files = find_image_files w directory_path
         in if image_files = [] then (w, 0)
            else rotate_loop 90 ''anticlockwise'' overwrite image_files (w, 0))
      else (w, 0))"

section \<open>PDF assembly from images (lines 196 to 311)\<close>

text \<open>
  \<^verbatim>\<open>page_pattern\<close> of line 226, compiled with \<^verbatim>\<open>re.IGNORECASE\<close>:
  \<^verbatim>\<open>.*_page(\d+)_.*\.(png|jpg|jpeg|gif|bmp|tiff|webp)$\<close>. Only the first pair of
  brackets is read by the program; the second is kept as a plain alternative.
\<close>

definition page_pattern :: regex where
  "page_pattern =
     Seq (Many AnyChar 0)
    (Seq (Lit ''_page'')
    (Seq (Group (Many DigitChar 1))
    (Seq (Lit ''_'')
    (Seq (Many AnyChar 0)
    (Seq (Lit ''.'')
    (Seq (Alt (Lit ''png'') (Alt (Lit ''jpg'') (Alt (Lit ''jpeg'') (Alt (Lit ''gif'')
           (Alt (Lit ''bmp'') (Alt (Lit ''tiff'') (Lit ''webp'')))))))
     EndAnchor))))))"

text \<open>Names for the parts of the pattern: the alternatives of the extension, what follows the
  digits, and what follows the greedy prefix.\<close>

abbreviation extension_alternatives :: regex where
  "extension_alternatives \<equiv>
     Alt (Lit ''png'') (Alt (Lit ''jpg'') (Alt (Lit ''jpeg'') (Alt (Lit ''gif'')
       (Alt (Lit ''bmp'') (Alt (Lit ''tiff'') (Lit ''webp''))))))"

abbreviation after_number :: regex where
  "after_number \<equiv>
     Seq (Lit ''_'') (Seq (Many AnyChar 0) (Seq (Lit ''.'') (Seq extension_alternatives EndAnchor)))"

abbreviation from_marker :: regex where
  "from_marker \<equiv> Seq (Lit ''_page'') (Seq (Group (Many DigitChar 1)) after_number)"

text \<open>
  Lines 229 to 233: the page number of a path, if the base name matches.
  Lines 228 to 236: the loop that collects the pairs. Line 244: Python's \<^verbatim>\<open>list.sort\<close>
  with a key is a stable ascending sort, as \<^const>\<open>sort_key\<close> is.
\<close>

definition parse_page :: "string \<Rightarrow> nat option" where
  "parse_page image_path =
     (case re_match page_pattern (basename image_path) of
        None \<Rightarrow> None
      | Some g \<Rightarrow> map_option py_int g)"

fun collect_pages :: "string list \<Rightarrow> (nat \<times> string) list \<Rightarrow> (nat \<times> string) list" where
  "collect_pages [] page_images = page_images"
| "collect_pages (image_path # rest) page_images =
     (case parse_page image_path of
        Some page_num \<Rightarrow> collect_pages rest (page_images @ [(page_num, image_path)])
      | None \<Rightarrow> collect_pages rest page_images)"

definition sorted_page_images :: "string list \<Rightarrow> (nat \<times> string) list" where
  "sorted_page_images image_files = sort_key fst (collect_pages image_files [])"

text \<open>
  Lines 276 to 287, the page made for one opened image: its size in points and the image
  as a PNG stream. When \<^verbatim>\<open>insert_image\<close> raises, the page that \<^verbatim>\<open>new_page\<close> has just
  added stays, empty.
\<close>

definition image_page :: "world \<Rightarrow> image \<Rightarrow> new_page" where
  "image_page w img =
     (let page_width = of_nat (img_width img) * 72 / 96;
          page_height = of_nat (img_height img) * 72 / 96;
          inserted = (if insert_ok w (Png img) then Some (Png img) else None)
      in \<lparr>np_width = page_width, np_height = page_height, np_stream = inserted\<rparr>)"

text \<open>The loop of lines 262 to 293. An image that cannot be opened adds nothing.\<close>

fun add_pages :: "world \<Rightarrow> (nat \<times> string) list \<Rightarrow> new_page list \<Rightarrow> new_page list" where
  "add_pages w [] pdf_document = pdf_document"
| "add_pages w (numbered # rest) pdf_document =
     (case images w (snd numbered) of
        None \<Rightarrow> add_pages w rest pdf_document
      | Some img \<Rightarrow> add_pages w rest (pdf_document @ [image_page w img]))"

definition create_pdf_from_images ::
  "world \<Rightarrow> string \<Rightarrow> string option \<Rightarrow> (new_page list) outcome" where
  "create_pdf_from_images w directory_path output_pdf =
     (if \<not> path_exists w directory_path then \<lparr>ret = None, events = [Reported NotFound]\<rparr>
      else
        let image_files = find_image_files w directory_path
        in if image_files = [] then \<lparr>ret = None, events = [Reported NoImageFiles]\<rparr>
           else if collect_pages image_files [] = []
           then \<lparr>ret = None, events = [Reported NoPagePattern]\<rparr>
           else
             let page_images = sorted_page_images image_files;
                 output_pdf1 = (case output_pdf of
                                  None \<Rightarrow> basename (rstrip [CHR ''/'', CHR 0x5C] directory_path)
                                            @ ''_combined.pdf''
                                | Some out \<Rightarrow> out);
                 output_pdf2 = (if \<not> endswith (lower output_pdf1) ''.pdf''
                                then output_pdf1 @ ''.pdf'' else output_pdf1);
                 pdf_document = add_pages w page_images []
             in if length pdf_document = 0
                then \<lparr>ret = None, events = [Reported NoPagesAdded]\<rparr>
                else if can_write w output_pdf2
                then \<lparr>ret = Some output_pdf2, events = [Saved output_pdf2 pdf_document [] ]\<rparr>
                else \<lparr>ret = None, events = [Reported (ErrorCreating LibraryError)]\<rparr>)"

section \<open>Basic compression (lines 313 to 394)\<close>

text \<open>Lines 329 to 336: the output path.\<close>

definition compress_output :: "string \<Rightarrow> string option \<Rightarrow> string" where
  "compress_output input_pdf output_pdf =
     (let output_pdf1 = (case output_pdf of
                           None \<Rightarrow> (let (name, ext) = splitext input_pdf
                                    in name @ ''_compressed'' @ ext)
                         | Some out \<Rightarrow> out)
      in if \<not> endswith (lower output_pdf1) ''.pdf'' then output_pdf1 @ ''.pdf'' else output_pdf1)"

text \<open>
  The dictionary \<^verbatim>\<open>compression_settings\<close>. Each preset is itself a keyword dictionary,
  kept as an association list in the order the source writes it; a key the preset does not
  hold is not passed to \<^verbatim>\<open>save\<close>.
\<close>

definition compression_settings :: "string \<rightharpoonup> save_flags" where
  "compression_settings =
     map_of
       [(''low'', [(''garbage'', I 1), (''clean'', B True)]),
        (''medium'', [(''deflate'', B True), (''garbage'', I 2), (''clean'', B True)]),
        (''high'', [(''deflate'', B True), (''garbage'', I 4), (''clean'', B True),
                    (''pretty'', B True)])]"

text \<open>
  The whole operation. After the save the program divides by the size of the input, which
  raises for an empty input file; the output is written by then.
\<close>

definition compress_pdf ::
  "world \<Rightarrow> string \<Rightarrow> string option \<Rightarrow> string \<Rightarrow> document outcome" where
  "compress_pdf w input_pdf output_pdf compression_level =
     (if \<not> path_exists w input_pdf then \<lparr>ret = None, events = [Reported NotFound]\<rparr>
      else
        let output_pdf' = compress_output input_pdf output_pdf
        in case compression_settings compression_level of
             None \<Rightarrow> \<lparr>ret = None, events = [Reported InvalidLevel]\<rparr>
           | Some settings \<Rightarrow>
               (case getsize w input_pdf of
                  None \<Rightarrow> \<lparr>ret = None, events = [Reported (ErrorCompressing OSError)]\<rparr>
                | Some original_size \<Rightarrow>
                    (case pdfs w input_pdf of
                       None \<Rightarrow> \<lparr>ret = None, events = [Reported (ErrorCompressing LibraryError)]\<rparr>
                     | Some pdf_document \<Rightarrow>
                         if \<not> can_write w output_pdf'
                         then \<lparr>ret = None, events = [Reported (ErrorCompressing LibraryError)]\<rparr>
                         else if original_size = 0
                         then \<lparr>ret = None,
                               events = [Saved output_pdf' pdf_document settings,
                                         Reported (ErrorCompressing ZeroDivisionError)]\<rparr>
                         else \<lparr>ret = Some output_pdf',
                               events = [Saved output_pdf' pdf_document settings]\<rparr>)))"

section \<open>Advanced compression: the whole operation (lines 396 to 531)\<close>

text \<open>Lines 417 to 424: the output path.\<close>

definition advanced_output :: "string \<Rightarrow> string option \<Rightarrow> string" where
  "advanced_output input_pdf output_pdf =
     (let output_pdf1 = (case output_pdf of
                           None \<Rightarrow> (let (name, ext) = splitext input_pdf
                                    in name @ ''_advanced_compressed'' @ ext)
                         | Some out \<Rightarrow> out)
      in if \<not> endswith (lower output_pdf1) ''.pdf'' then output_pdf1 @ ''.pdf'' else output_pdf1)"

text \<open>
  The body of the page loop, lines 441 to 505: the scale, the rendering, the image
  operations and the JPEG encoding, the new page. Any of the library calls may raise.
\<close>

definition process_page :: "world \<Rightarrow> int \<Rightarrow> int \<Rightarrow> int \<Rightarrow> page \<Rightarrow> error + new_page" where
  "process_page w image_quality max_width max_height pg =
     (case render_scale max_width max_height (rect_width pg) (rect_height pg) of
        Inl e \<Rightarrow> Inl e
      | Inr scale \<Rightarrow>
          (case render w pg scale of
             None \<Rightarrow> Inl LibraryError
           | Some pil_image \<Rightarrow>
               let jpeg = Jpeg pil_image (quality_ops image_quality)
                            (jpeg_save_options image_quality)
               in if \<not> encode_ok w jpeg then Inl LibraryError
                  else
                    let new_width = of_nat (img_width pil_image) * 72 / 96;
                        new_height = of_nat (img_height pil_image) * 72 / 96
                    in if insert_ok w jpeg
                       then Inr \<lparr>np_width = new_width, np_height = new_height,
                                 np_stream = Some jpeg\<rparr>
                       else Inl LibraryError))"

text \<open>The loop of line 440: the first exception ends it.\<close>

fun process_pages ::
  "world \<Rightarrow> int \<Rightarrow> int \<Rightarrow> int \<Rightarrow> page list \<Rightarrow> new_page list \<Rightarrow> error + new_page list" where
  "process_pages w image_quality max_width max_height [] new_pdf = Inr new_pdf"
| "process_pages w image_quality max_width max_height (pg # rest) new_pdf =
     (case process_page w image_quality max_width max_height pg of
        Inl e \<Rightarrow> Inl e
      | Inr new_pg \<Rightarrow>
          process_pages w image_quality max_width max_height rest (new_pdf @ [new_pg]))"

definition advanced_save_flags :: save_flags where
  "advanced_save_flags =
     [(''deflate'', B True), (''garbage'', I 4), (''clean'', B True), (''pretty'', B True)]"

definition compress_pdf_advanced ::
  "world \<Rightarrow> string \<Rightarrow> string option \<Rightarrow> int \<Rightarrow> int \<Rightarrow> int \<Rightarrow> (new_page list) outcome" where
  "compress_pdf_advanced w input_pdf output_pdf image_quality max_width max_height =
     (if \<not> path_exists w input_pdf then \<lparr>ret = None, events = [Reported NotFound]\<rparr>
      else
        let output_pdf' = advanced_output input_pdf output_pdf
        in case getsize w input_pdf of
             None \<Rightarrow> \<lparr>ret = None, events = [Reported (ErrorAdvanced OSError)]\<rparr>
           | Some original_size \<Rightarrow>
               (case pdfs w input_pdf of
                  None \<Rightarrow> \<lparr>ret = None, events = [Reported (ErrorAdvanced LibraryError)]\<rparr>
                | Some pdf_document \<Rightarrow>
                    (case process_pages w image_quality max_width max_height pdf_document [] of
                       Inl e \<Rightarrow> \<lparr>ret = None, events = [Reported (ErrorAdvanced e)]\<rparr>
                     | Inr new_pdf \<Rightarrow>
                         if \<not> can_write w output_pdf'
                         then \<lparr>ret = None, events = [Reported (ErrorAdvanced LibraryError)]\<rparr>
                         else if original_size = 0
                         then \<lparr>ret = None,
                               events = [Saved output_pdf' new_pdf advanced_save_flags,
                                         Reported (ErrorAdvanced ZeroDivisionError)]\<rparr>
                         else \<lparr>ret = Some output_pdf',
                               events = [Saved output_pdf' new_pdf advanced_save_flags]\<rparr>)))"

section \<open>Example inputs\<close>

text \<open>
  A two-page document, each page with embedded images of several sizes, and a world in
  which every file exists, every library call comes through and the directory
  \<^verbatim>\<open>scans\<close> holds three page images.
\<close>

definition sample_pdf :: document where
  "sample_pdf =
     [\<lparr>rect_width = 600, rect_height = 800,
       embedded = [\<lparr>pix_width = 640, pix_height = 480, pix_n = 3, pix_alpha = 0\<rparr>,
                   \<lparr>pix_width = 32, pix_height = 32, pix_n = 3, pix_alpha = 0\<rparr>]\<rparr>,
      \<lparr>rect_width = 2400, rect_height = 1600,
       embedded = [\<lparr>pix_width = 100, pix_height = 20, pix_n = 1, pix_alpha = 0\<rparr>,
                   \<lparr>pix_width = 800, pix_height = 600, pix_n = 4, pix_alpha = 0\<rparr>]\<rparr>]"

definition sample_world :: world where
  "sample_world =
     \<lparr>path_exists = (\<lambda>p. True),
      listdir = (\<lambda>d. if d = ''scans''
                      then [''a_page2_x.png'', ''a_page1_x.png'', ''a_page10_x.png''] else []),
      getsize = (\<lambda>p. Some 4096),
      pdfs = [''report.pdf'' \<mapsto> sample_pdf],
      images = [''scans/a_page2_x.png'' \<mapsto> [ [2, 2] ],
                ''scans/a_page1_x.png'' \<mapsto> [ [1, 1] ],
                ''scans/a_page10_x.png'' \<mapsto> [ [10, 10] ] ],
      can_write = (\<lambda>p. True),
      render = (\<lambda>pg scale. Some [ [0, 0], [0, 0] ]),
      encode_ok = (\<lambda>s. True),
      insert_ok = (\<lambda>s. True)\<rparr>"

text \<open>
  The same world with a second page that cannot be rendered, with no file that can be
  opened as an image, and with a directory in which the output name of one image is the
  name of another.
\<close>

definition broken_page_world :: world where
  "broken_page_world =
     sample_world\<lparr>render := (\<lambda>pg scale. if rect_width pg = 2400 then None else Some [ [0] ])\<rparr>"

definition no_images_world :: world where
  "no_images_world = sample_world\<lparr>images := Map.empty\<rparr>"

definition collision_world :: world where
  "collision_world =
     sample_world
       \<lparr>listdir := (\<lambda>d. if d = ''pics'' then [''a.png'', ''a_rotated_clockwise.png''] else []),
        images := [''pics/a.png'' \<mapsto> [ [3, 4] ], ''pics/a_rotated_clockwise.png'' \<mapsto> [ [7] ] ]\<rparr>"

section \<open>Properties\<close>

subsection \<open>Render scale\<close>

lemma scale_axis_le_one:
  assumes "0 \<le> m" and "scale_axis m d = Inr s"
  shows "s \<le> 1"
proof (cases "d > of_int m")
  case False
  with assms show ?thesis by (simp add: scale_axis_def)
next
  case True
  with assms have s: "s = of_int m / d" and "0 < d"
    by (auto simp: scale_axis_def split: if_splits)
  with True show ?thesis by (simp add: divide_le_eq)
qed

lemma scale_axis_returns: "0 < m \<Longrightarrow> \<exists>s. scale_axis m d = Inr s"
  by (auto simp: scale_axis_def)

lemma scale_axis_pos: "0 < m \<Longrightarrow> 0 < d \<Longrightarrow> scale_axis m d = Inr (min (of_int m / d) 1)"
  by (auto simp: scale_axis_def min_def divide_le_eq)

text \<open>
  Claim C1, as the code has it. For a positive \<^verbatim>\<open>max_width\<close> and \<^verbatim>\<open>max_height\<close> the
  scale of every page is computed without an exception, lies in the interval from 0
  (excluded) to 1, is exactly 1 when the page is no wider than \<^verbatim>\<open>max_width\<close> and no
  higher than \<^verbatim>\<open>max_height\<close>, and for a page of positive size equals
  \<open>min (max_width / page_width, max_height / page_height, 1)\<close>: the cap that acts is 1,
  not 2, since each of the two quotients is replaced by 1 unless the page exceeds the
  maximum. For a page that exceeds a maximum this is the value of the formula with 2.
\<close>

theorem render_scale_downscales:
  assumes "0 < max_width" and "0 < max_height"
  shows "\<exists>scale. render_scale max_width max_height page_width page_height = Inr scale
           \<and> 0 < scale \<and> scale \<le> 1
           \<and> (page_width \<le> of_int max_width \<and> page_height \<le> of_int max_height \<longrightarrow> scale = 1)
           \<and> (0 < page_width \<and> 0 < page_height \<longrightarrow>
                scale = min (of_int max_width / page_width) (min (of_int max_height / page_height) 1))
           \<and> (0 < page_width \<and> 0 < page_height \<and>
              (of_int max_width < page_width \<or> of_int max_height < page_height) \<longrightarrow>
                scale = min (of_int max_width / page_width) (min (of_int max_height / page_height) 2))"
proof -
  obtain sx where sx: "scale_axis max_width page_width = Inr sx"
    using scale_axis_returns [OF assms(1)] by blast
  obtain sy where sy: "scale_axis max_height page_height = Inr sy"
    using scale_axis_returns [OF assms(2)] by blast
  have le: "sx \<le> 1" "sy \<le> 1"
    using scale_axis_le_one [OF _ sx] scale_axis_le_one [OF _ sy] assms by simp_all
  have pos: "0 < sx" "0 < sy"
    using sx sy assms by (auto simp: scale_axis_def split: if_splits)
  have fit: "page_width \<le> of_int max_width \<Longrightarrow> sx = 1" "page_height \<le> of_int max_height \<Longrightarrow> sy = 1"
    using sx sy by (auto simp: scale_axis_def split: if_splits)
  have form: "sx = min (of_int max_width / page_width) 1"
     "sy = min (of_int max_height / page_height) 1"
    if "0 < page_width" "0 < page_height"
    using that sx sy scale_axis_pos assms by simp_all
  have r: "render_scale max_width max_height page_width page_height = Inr (min sx (min sy 2))"
    by (simp add: render_scale_def sx sy)
  have c1: "0 < min sx (min sy 2)" using pos by simp
  have c2: "min sx (min sy 2) \<le> 1" using le by (simp add: min_le_iff_disj)
  have c3: "min sx (min sy 2) = 1"
    if "page_width \<le> of_int max_width \<and> page_height \<le> of_int max_height"
    using that fit by simp
  have c4: "min sx (min sy 2) =
      min (of_int max_width / page_width) (min (of_int max_height / page_height) 1)"
    if "0 < page_width \<and> 0 < page_height"
  proof -
    have "min sy 2 = sy" using le by simp
    then show ?thesis using that form by (simp add: min.assoc min.left_commute)
  qed
  have c5: "min sx (min sy 2) =
      min (of_int max_width / page_width) (min (of_int max_height / page_height) 2)"
    if h: "0 < page_width \<and> 0 < page_height \<and>
           (of_int max_width < page_width \<or> of_int max_height < page_height)"
  proof -
    from h have "of_int max_width / page_width < 1 \<or> of_int max_height / page_height < 1"
      by (auto simp: divide_less_eq)
    then have "min (of_int max_width / page_width) (min (of_int max_height / page_height) 1) =
               min (of_int max_width / page_width) (min (of_int max_height / page_height) 2)"
      by (auto simp: min_def)
    with c4 h show ?thesis by simp
  qed
  show ?thesis
    unfolding r using c1 c2 c3 c4 c5 by blast
qed

theorem render_scale_downscales_witness:
  "render_scale 1200 1600 2400 1600 = Inr (1 / 2)"
  using render_scale_downscales [of 1200 1600 2400 1600]
  by (simp add: render_scale_def scale_axis_def)

text \<open>
  The formula of claim C1 as it is written, \<open>min (max_width / page_width,
  max_height / page_height, 2)\<close>, is not what the code computes: a page of 600 by 800 points
  with the default maxima 1200 and 1600 is rendered at scale 1, and the formula gives 2.
\<close>

theorem render_scale_formula_counterexample:
  "render_scale 1200 1600 600 800 \<noteq> Inr (min (of_int 1200 / 600) (min (of_int 1600 / 800) 2))"
  by (simp add: render_scale_def scale_axis_def)

subsection \<open>Quality thresholds\<close>

text \<open>
  Claim C2. The image is quantized to 256 colours and converted back to RGB exactly when
  the quality is below 50, the Gaussian blur of radius 0.5 is applied after that exactly
  when the quality is below 40, and the JPEG is saved progressive at the given quality
  with subsampling 2 below 50 and 0 from 50 on. At quality 99 no operation is applied.
  These operations and options are the ones of the stream that a processed page holds.
\<close>

theorem quality_thresholds:
  "quality_ops q =
     (if q < 40 then [Quantize 256, ConvertRGB, GaussianBlur (1 / 2)]
      else if q < 50 then [Quantize 256, ConvertRGB] else [])
   \<and> ((Quantize 256 \<in> set (quality_ops q)) = (q < 50))
   \<and> ((GaussianBlur (1 / 2) \<in> set (quality_ops q)) = (q < 40))
   \<and> progressive (jpeg_save_options q)
   \<and> quality (jpeg_save_options q) = q
   \<and> subsampling (jpeg_save_options q) = (if q < 50 then 2 else 0)
   \<and> quality_ops 99 = []
   \<and> (\<forall>w max_width max_height pg new_pg.
         process_page w q max_width max_height pg = Inr new_pg \<longrightarrow>
         (\<exists>img. np_stream new_pg = Some (Jpeg img (quality_ops q) (jpeg_save_options q))))"
proof -
  have "\<exists>img. np_stream new_pg = Some (Jpeg img (quality_ops q) (jpeg_save_options q))"
    if "process_page w q max_width max_height pg = Inr new_pg"
    for w max_width max_height pg new_pg
    using that
    by (auto simp: process_page_def Let_def split: sum.splits option.splits if_splits)
  then show ?thesis
    by (simp add: quality_ops_def jpeg_save_options_def)
qed

theorem quality_thresholds_witness:
  "process_page sample_world 45 1200 1600 (sample_pdf ! 0) =
     Inr \<lparr>np_width = 3 / 2, np_height = 3 / 2,
          np_stream = Some (Jpeg [ [0, 0], [0, 0] ] (quality_ops 45) (jpeg_save_options 45))\<rparr>
   \<and> quality_ops 45 = [Quantize 256, ConvertRGB] \<and> subsampling (jpeg_save_options 45) = 2
   \<and> quality_ops 30 = [Quantize 256, ConvertRGB, GaussianBlur (1 / 2)]
   \<and> quality_ops 50 = [] \<and> subsampling (jpeg_save_options 50) = 0"
proof -
  have p: "process_page sample_world 45 1200 1600 (sample_pdf ! 0) =
     Inr \<lparr>np_width = 3 / 2, np_height = 3 / 2,
          np_stream = Some (Jpeg [ [0, 0], [0, 0] ] (quality_ops 45) (jpeg_save_options 45))\<rparr>"
    by (simp add: process_page_def render_scale_def scale_axis_def sample_world_def
        sample_pdf_def img_width_def img_height_def)
  from quality_thresholds [of 45] quality_thresholds [of 30] quality_thresholds [of 50] p
  show ?thesis by simp
qed

subsection \<open>Compression presets\<close>

lemma compression_settings_other:
  "level \<noteq> ''low'' \<Longrightarrow> level \<noteq> ''medium'' \<Longrightarrow> level \<noteq> ''high'' \<Longrightarrow>
   compression_settings level = None"
  by (simp add: compression_settings_def)

text \<open>
  Claim C6. The three presets hold exactly the keyword flags named, and every save that
  \<^verbatim>\<open>compress_pdf\<close> performs carries the flags of the level it was called with. A
  level that is none of the three ends the call without a result and without opening or
  saving anything: the only thing left behind is one message. At each of the three
  levels, when the input exists, has a size, opens, and the output can be written, the
  call saves the opened document to the output path with exactly the flags of that level,
  once, and returns the output path; for an empty input file the save is followed by the
  division error and no path is returned.
\<close>

theorem compress_pdf_presets:
  "compression_settings ''low'' = Some [(''garbage'', I 1), (''clean'', B True)]
   \<and> compression_settings ''medium'' =
       Some [(''deflate'', B True), (''garbage'', I 2), (''clean'', B True)]
   \<and> compression_settings ''high'' =
       Some [(''deflate'', B True), (''garbage'', I 4), (''clean'', B True), (''pretty'', B True)]
   \<and> (\<forall>path doc flags.
         Saved path doc flags \<in> set (events (compress_pdf w input_pdf output_pdf level)) \<longrightarrow>
         compression_settings level = Some flags)
   \<and> (level \<notin> {''low'', ''medium'', ''high''} \<longrightarrow>
         ret (compress_pdf w input_pdf output_pdf level) = None
         \<and> events (compress_pdf w input_pdf output_pdf level)
             \<in> {[Reported NotFound], [Reported InvalidLevel]})
   \<and> (path_exists w input_pdf \<and> getsize w input_pdf = Some original_size
       \<and> pdfs w input_pdf = Some pdf_document
       \<and> can_write w (compress_output input_pdf output_pdf) \<longrightarrow>
         events (compress_pdf w input_pdf output_pdf ''low'') =
           Saved (compress_output input_pdf output_pdf) pdf_document
             [(''garbage'', I 1), (''clean'', B True)]
           # (if original_size = 0 then [Reported (ErrorCompressing ZeroDivisionError)] else [])
         \<and> events (compress_pdf w input_pdf output_pdf ''medium'') =
           Saved (compress_output input_pdf output_pdf) pdf_document
             [(''deflate'', B True), (''garbage'', I 2), (''clean'', B True)]
           # (if original_size = 0 then [Reported (ErrorCompressing ZeroDivisionError)] else [])
         \<and> events (compress_pdf w input_pdf output_pdf ''high'') =
           Saved (compress_output input_pdf output_pdf) pdf_document
             [(''deflate'', B True), (''garbage'', I 4), (''clean'', B True), (''pretty'', B True)]
           # (if original_size = 0 then [Reported (ErrorCompressing ZeroDivisionError)] else [])
         \<and> (\<forall>l \<in> {''low'', ''medium'', ''high''}.
               ret (compress_pdf w input_pdf output_pdf l) =
                 (if original_size = 0 then None
                  else Some (compress_output input_pdf output_pdf))))"
proof (intro conjI allI impI ballI)
  show "compression_settings ''low'' = Some [(''garbage'', I 1), (''clean'', B True)]"
    by (simp add: compression_settings_def)
  show "compression_settings ''medium'' =
       Some [(''deflate'', B True), (''garbage'', I 2), (''clean'', B True)]"
    by (simp add: compression_settings_def)
  show "compression_settings ''high'' =
       Some [(''deflate'', B True), (''garbage'', I 4), (''clean'', B True), (''pretty'', B True)]"
    by (simp add: compression_settings_def)
next
  fix path doc flags
  assume "Saved path doc flags \<in> set (events (compress_pdf w input_pdf output_pdf level))"
  then show "compression_settings level = Some flags"
    by (auto simp: compress_pdf_def Let_def split: if_splits option.splits)
next
  assume "level \<notin> {''low'', ''medium'', ''high''}"
  then have n: "compression_settings level = None"
    using compression_settings_other by simp
  show "ret (compress_pdf w input_pdf output_pdf level) = None"
    by (simp add: compress_pdf_def Let_def n)
  show "events (compress_pdf w input_pdf output_pdf level)
             \<in> {[Reported NotFound], [Reported InvalidLevel]}"
    by (simp add: compress_pdf_def Let_def n)
next
  assume a: "path_exists w input_pdf \<and> getsize w input_pdf = Some original_size
       \<and> pdfs w input_pdf = Some pdf_document
       \<and> can_write w (compress_output input_pdf output_pdf)"
  show "events (compress_pdf w input_pdf output_pdf ''low'') =
           Saved (compress_output input_pdf output_pdf) pdf_document
             [(''garbage'', I 1), (''clean'', B True)]
           # (if original_size = 0 then [Reported (ErrorCompressing ZeroDivisionError)] else [])"
    using a by (simp add: compress_pdf_def Let_def compression_settings_def)
  show "events (compress_pdf w input_pdf output_pdf ''medium'') =
           Saved (compress_output input_pdf output_pdf) pdf_document
             [(''deflate'', B True), (''garbage'', I 2), (''clean'', B True)]
           # (if original_size = 0 then [Reported (ErrorCompressing ZeroDivisionError)] else [])"
    using a by (simp add: compress_pdf_def Let_def compression_settings_def)
  show "events (compress_pdf w input_pdf output_pdf ''high'') =
           Saved (compress_output input_pdf output_pdf) pdf_document
             [(''deflate'', B True), (''garbage'', I 4), (''clean'', B True), (''pretty'', B True)]
           # (if original_size = 0 then [Reported (ErrorCompressing ZeroDivisionError)] else [])"
    using a by (simp add: compress_pdf_def Let_def compression_settings_def)
  fix l :: string
  assume "l \<in> {''low'', ''medium'', ''high''}"
  then have "l = ''low'' \<or> l = ''medium'' \<or> l = ''high''" by simp
  then show "ret (compress_pdf w input_pdf output_pdf l) =
                 (if original_size = 0 then None
                  else Some (compress_output input_pdf output_pdf))"
    using a by (elim disjE) (simp_all add: compress_pdf_def Let_def compression_settings_def)
qed

theorem compress_pdf_presets_witness:
  "events (compress_pdf sample_world ''report.pdf'' None ''low'') =
     [Saved ''report_compressed.pdf'' sample_pdf [(''garbage'', I 1), (''clean'', B True)] ]
   \<and> events (compress_pdf sample_world ''report.pdf'' None ''medium'') =
     [Saved ''report_compressed.pdf'' sample_pdf
        [(''deflate'', B True), (''garbage'', I 2), (''clean'', B True)] ]
   \<and> events (compress_pdf sample_world ''report.pdf'' None ''high'') =
     [Saved ''report_compressed.pdf'' sample_pdf
        [(''deflate'', B True), (''garbage'', I 4), (''clean'', B True), (''pretty'', B True)] ]
   \<and> ret (compress_pdf sample_world ''report.pdf'' None ''high'') = Some ''report_compressed.pdf''
   \<and> ret (compress_pdf sample_world ''report.pdf'' None ''extreme'') = None
   \<and> events (compress_pdf sample_world ''report.pdf'' None ''extreme'') = [Reported InvalidLevel]"
proof -
  have w: "path_exists sample_world ''report.pdf''"
    "getsize sample_world ''report.pdf'' = Some 4096"
    "pdfs sample_world ''report.pdf'' = Some sample_pdf"
    "can_write sample_world (compress_output ''report.pdf'' None)"
    by (simp_all add: sample_world_def)
  have out: "compress_output ''report.pdf'' None = ''report_compressed.pdf''"
    by (simp add: compress_output_def splitext_def rfind_def endswith_def lower_def lower_chr_def)
  have x: "''extreme'' \<notin> {''low'', ''medium'', ''high''}" by simp
  have e: "events (compress_pdf sample_world ''report.pdf'' None ''extreme'') \<noteq> [Reported NotFound]"
    by (simp add: compress_pdf_def Let_def compression_settings_def w)
  from compress_pdf_presets
         [of sample_world "''report.pdf''" None "''extreme''" 4096 sample_pdf] w x e
  show ?thesis unfolding out by simp
qed

subsection \<open>Paths and directory listings\<close>

lemma rfind_last: "c \<notin> set b \<Longrightarrow> rfind c (a @ c # b) = int (length a)"
proof -
  assume h: "c \<notin> set b"
  have "takeWhile (\<lambda>x. x \<noteq> c) (rev b @ c # rev a) = rev b"
    using takeWhile_append2 [of "rev b" "\<lambda>x. x \<noteq> c" "c # rev a"] h by auto
  then show ?thesis by (simp add: rfind_def)
qed

lemma rfind_absent: "c \<notin> set p \<Longrightarrow> rfind c p = - 1"
  by (simp add: rfind_def)

lemma rstrip_slash: "d \<noteq> [] \<Longrightarrow> last d \<noteq> CHR ''/'' \<Longrightarrow> rstrip ''/'' (d @ ''/'') = d"
proof -
  assume h: "d \<noteq> []" "last d \<noteq> CHR ''/''"
  then obtain x xs where r: "rev d = x # xs" by (cases "rev d") auto
  then have "x = last d" using h(1) by (metis last_rev list.sel(1) rev_rev_ident hd_rev)
  with h(2) have "x \<noteq> CHR ''/''" by simp
  then have "dropWhile (\<lambda>c. c \<in> set ''/'') (rev (d @ ''/'')) = rev d"
    using r by simp
  then show ?thesis by (simp add: rstrip_def)
qed

lemma not_all_slashes:
  "d \<noteq> [] \<Longrightarrow> CHR ''/'' \<notin> set d \<Longrightarrow> d @ ''/'' \<noteq> replicate (Suc (length d)) CHR ''/''"
proof
  assume h: "d \<noteq> []" "CHR ''/'' \<notin> set d"
    and eq: "d @ ''/'' = replicate (Suc (length d)) CHR ''/''"
  from h(1) obtain x xs where d: "d = x # xs" by (cases d) auto
  with eq have "x = CHR ''/''" by simp
  with h(2) d show False by simp
qed

lemma split_path_plain:
  assumes "d \<noteq> []" "CHR ''/'' \<notin> set d" "CHR ''/'' \<notin> set pat"
  shows "split_path (d @ CHR ''/'' # pat) = (d, pat)"
proof -
  have l: "last d \<noteq> CHR ''/''" using assms(1,2) last_in_set by metis
  have r: "rfind CHR ''/'' (d @ CHR ''/'' # pat) = int (length d)"
    using assms(3) by (rule rfind_last)
  have t: "take (Suc (length d)) (d @ CHR ''/'' # pat) = d @ ''/''" by simp
  have dr: "drop (Suc (length d)) (d @ CHR ''/'' # pat) = pat" by simp
  have n: "nat (int (length d) + 1) = Suc (length d)" by simp
  show ?thesis
    unfolding split_path_def r n Let_def t dr
    using not_all_slashes [OF assms(1,2)] rstrip_slash [OF assms(1) l] by simp
qed

lemma glob_plain:
  assumes "d \<noteq> []" "CHR ''/'' \<notin> set d" "CHR ''/'' \<notin> set pat" "pat \<noteq> []"
  shows "glob w (join d pat) =
    map (join d) (filter (\<lambda>name. name \<noteq> [] \<and> hd name \<noteq> CHR ''.'' \<and> endswith name (tl pat)) (listdir w d))"
proof -
  have l: "last d \<noteq> CHR ''/''" using assms(1,2) last_in_set by metis
  have h: "hd pat \<noteq> CHR ''/''" using assms(3,4) hd_in_set by metis
  have j: "join d pat = d @ CHR ''/'' # pat"
    using assms l h by (simp add: join_def)
  show ?thesis
    unfolding glob_def j split_path_plain [OF assms(1,2,3)]
    using assms(1) by simp
qed

lemma find_image_files_plain:
  assumes "d \<noteq> []" "CHR ''/'' \<notin> set d"
  shows "find_image_files w d =
    concat (map (\<lambda>ext. map (join d) (filter (\<lambda>name. name \<noteq> [] \<and> hd name \<noteq> CHR ''.'' \<and> endswith name ext) (listdir w d)))
       [''.png'', ''.PNG'', ''.jpg'', ''.JPG'', ''.jpeg'', ''.JPEG'', ''.gif'', ''.GIF'',
        ''.bmp'', ''.BMP'', ''.tiff'', ''.TIFF'', ''.webp'', ''.WEBP''])"
proof -
  have g: "glob w (join d pat) =
    map (join d) (filter (\<lambda>name. name \<noteq> [] \<and> hd name \<noteq> CHR ''.'' \<and> endswith name (tl pat)) (listdir w d))"
    if "CHR ''/'' \<notin> set pat" "pat \<noteq> []" for pat
    using glob_plain [OF assms that] .
  have u: "map upper image_extensions = [''*.PNG'', ''*.JPG'', ''*.JPEG'', ''*.GIF'', ''*.BMP'', ''*.TIFF'', ''*.WEBP'']"
    by (simp add: image_extensions_def upper_def upper_chr_def)
  show ?thesis
    unfolding find_image_files_def
    using u by (simp add: image_extensions_def g)
qed

subsection \<open>Advanced compression: a page that fails\<close>

lemma process_pages_failure:
  "pg \<in> set pages \<Longrightarrow> process_page w q mw mh pg = Inl e \<Longrightarrow>
   \<exists>e'. process_pages w q mw mh pages new_pdf = Inl e'"
proof (induction pages arbitrary: new_pdf)
  case Nil
  then show ?case by simp
next
  case (Cons a pages)
  show ?case
  proof (cases "process_page w q mw mh a")
    case (Inl e0)
    then show ?thesis by simp
  next
    case (Inr np)
    with Cons.prems have "pg \<in> set pages" by auto
    from Cons.IH [OF this Cons.prems(2)] Inr show ?thesis by simp
  qed
qed

lemma process_pages_success:
  "\<forall>pg \<in> set pages. \<exists>np. process_page w q mw mh pg = Inr np \<Longrightarrow>
   \<exists>new_pages. process_pages w q mw mh pages new_pdf = Inr (new_pdf @ new_pages)
      \<and> length new_pages = length pages"
proof (induction pages arbitrary: new_pdf)
  case Nil
  then show ?case by simp
next
  case (Cons a pages)
  then obtain np where np: "process_page w q mw mh a = Inr np" by auto
  from Cons.prems have "\<forall>pg \<in> set pages. \<exists>np. process_page w q mw mh pg = Inr np" by simp
  from Cons.IH [OF this, of "new_pdf @ [np]"] obtain new_pages where
    "process_pages w q mw mh pages (new_pdf @ [np]) = Inr ((new_pdf @ [np]) @ new_pages)"
    "length new_pages = length pages" by blast
  then show ?case using np by (intro exI [of _ "np # new_pages"]) simp
qed

text \<open>
  Claim C7. If the processing of any page of the opened document raises (the scale, the
  rendering, the encoding or the insertion), the operation returns \<^verbatim>\<open>None\<close>, saves
  nothing and prints exactly one message, the error.
\<close>

theorem advanced_page_failure_aborts:
  assumes "pdfs w input_pdf = Some pdf_document"
    and "pg \<in> set pdf_document"
    and "process_page w image_quality max_width max_height pg = Inl e"
  shows "ret (compress_pdf_advanced w input_pdf output_pdf image_quality max_width max_height) = None
     \<and> (\<forall>path doc flags. Saved path doc flags \<notin>
           set (events (compress_pdf_advanced w input_pdf output_pdf image_quality max_width max_height)))
     \<and> (\<exists>r. events (compress_pdf_advanced w input_pdf output_pdf image_quality max_width max_height)
              = [Reported r])"
proof -
  obtain e' where
    "process_pages w image_quality max_width max_height pdf_document [] = Inl e'"
    using process_pages_failure [OF assms(2) assms(3)] by blast
  then show ?thesis
    using assms(1) by (simp add: compress_pdf_advanced_def Let_def split: option.splits)
qed

theorem advanced_page_failure_aborts_witness:
  "pdfs broken_page_world ''report.pdf'' = Some sample_pdf
   \<and> process_page broken_page_world 30 1200 1600 (sample_pdf ! 1) = Inl LibraryError
   \<and> ret (compress_pdf_advanced broken_page_world ''report.pdf'' None 30 1200 1600) = None
   \<and> events (compress_pdf_advanced broken_page_world ''report.pdf'' None 30 1200 1600)
       = [Reported (ErrorAdvanced LibraryError)]"
proof -
  have 1: "pdfs broken_page_world ''report.pdf'' = Some sample_pdf"
    by (simp add: broken_page_world_def sample_world_def)
  have 2: "sample_pdf ! 1 \<in> set sample_pdf"
    by (simp add: sample_pdf_def)
  have 3: "process_page broken_page_world 30 1200 1600 (sample_pdf ! 1) = Inl LibraryError"
    by (simp add: process_page_def render_scale_def scale_axis_def broken_page_world_def
        sample_world_def sample_pdf_def)
  have 4: "events (compress_pdf_advanced broken_page_world ''report.pdf'' None 30 1200 1600)
       = [Reported (ErrorAdvanced LibraryError)]"
    by (simp add: compress_pdf_advanced_def 1 sample_pdf_def process_page_def render_scale_def
        scale_axis_def Let_def broken_page_world_def sample_world_def)
  from advanced_page_failure_aborts [OF 1 2 3, of None] 1 3 4 show ?thesis
    by simp
qed

text \<open>
  When every page comes through, the input is not empty and the output can be written,
  the operation saves one document with a page for each input page and returns its path:
  the hypothesis of the theorem above is what keeps the save from happening.
\<close>

lemma advanced_success:
  assumes "path_exists w input_pdf" and "getsize w input_pdf = Some n" and "0 < n"
    and "pdfs w input_pdf = Some pdf_document"
    and "\<forall>pg \<in> set pdf_document. \<exists>np. process_page w image_quality max_width max_height pg = Inr np"
    and "can_write w (advanced_output input_pdf output_pdf)"
  shows "\<exists>new_pdf. length new_pdf = length pdf_document \<and>
     compress_pdf_advanced w input_pdf output_pdf image_quality max_width max_height =
       \<lparr>ret = Some (advanced_output input_pdf output_pdf),
        events = [Saved (advanced_output input_pdf output_pdf) new_pdf advanced_save_flags]\<rparr>"
proof -
  obtain new_pages where
    "process_pages w image_quality max_width max_height pdf_document [] = Inr ([] @ new_pages)"
    "length new_pages = length pdf_document"
    using process_pages_success [OF assms(5)] by blast
  then show ?thesis
    using assms by (simp add: compress_pdf_advanced_def Let_def)
qed

subsection \<open>PDF assembly: no page added\<close>

lemma collect_pages_paths:
  "snd ` set (collect_pages image_files page_images) \<subseteq> snd ` set page_images \<union> set image_files"
proof (induction image_files arbitrary: page_images)
  case Nil
  then show ?case by simp
next
  case (Cons a image_files)
  show ?case
  proof (cases "parse_page a")
    case None
    then show ?thesis using Cons.IH [of page_images] by auto
  next
    case (Some n)
    then show ?thesis using Cons.IH [of "page_images @ [(n, a)]"] by auto
  qed
qed

lemma sorted_page_images_paths:
  "snd ` set (sorted_page_images image_files) \<subseteq> set image_files"
  using collect_pages_paths [of image_files "[]"] by (simp add: sorted_page_images_def)

lemma add_pages_undecodable:
  "\<forall>numbered \<in> set page_images. images w (snd numbered) = None \<Longrightarrow>
   add_pages w page_images pdf_document = pdf_document"
  by (induction page_images arbitrary: pdf_document) simp_all

lemma add_pages_length:
  "length (add_pages w page_images pdf_document) =
   length pdf_document + length (filter (\<lambda>numbered. images w (snd numbered) \<noteq> None) page_images)"
  by (induction page_images arbitrary: pdf_document) (auto simp: Let_def split: option.splits)

text \<open>
  Claim C8. When the loop has added no page, and in particular when none of the image
  files found can be opened, \<^verbatim>\<open>create_pdf_from_images\<close> returns \<^verbatim>\<open>None\<close> and saves
  nothing; and a document that it does save is never empty.
\<close>

theorem create_pdf_zero_pages:
  "(add_pages w (sorted_page_images (find_image_files w directory_path)) [] = [] \<longrightarrow>
      ret (create_pdf_from_images w directory_path output_pdf) = None
      \<and> (\<forall>path doc flags. Saved path doc flags \<notin>
            set (events (create_pdf_from_images w directory_path output_pdf))))
   \<and> ((\<forall>image_path \<in> set (find_image_files w directory_path). images w image_path = None) \<longrightarrow>
      ret (create_pdf_from_images w directory_path output_pdf) = None
      \<and> (\<forall>path doc flags. Saved path doc flags \<notin>
            set (events (create_pdf_from_images w directory_path output_pdf))))
   \<and> (\<forall>path doc flags. Saved path doc flags \<in>
            set (events (create_pdf_from_images w directory_path output_pdf)) \<longrightarrow> doc \<noteq> [])"
proof -
  let ?files = "find_image_files w directory_path"
  let ?doc = "add_pages w (sorted_page_images ?files) []"
  have zero: "ret (create_pdf_from_images w directory_path output_pdf) = None
      \<and> (\<forall>path doc flags. Saved path doc flags \<notin>
            set (events (create_pdf_from_images w directory_path output_pdf)))"
    if "?doc = []"
    using that by (simp add: create_pdf_from_images_def Let_def)
  have undecodable: "?doc = []"
    if "\<forall>image_path \<in> set ?files. images w image_path = None"
  proof -
    have "\<forall>numbered \<in> set (sorted_page_images ?files). images w (snd numbered) = None"
      using that sorted_page_images_paths [of ?files] by auto
    then show ?thesis by (rule add_pages_undecodable)
  qed
  have nonempty: "doc \<noteq> []"
    if "Saved path doc flags \<in> set (events (create_pdf_from_images w directory_path output_pdf))"
    for path doc flags
    using that by (auto simp: create_pdf_from_images_def Let_def split: if_splits)
  show ?thesis using zero undecodable nonempty by blast
qed

theorem create_pdf_zero_pages_witness:
  "find_image_files no_images_world ''scans'' =
     [''scans/a_page2_x.png'', ''scans/a_page1_x.png'', ''scans/a_page10_x.png'']
   \<and> ret (create_pdf_from_images no_images_world ''scans'' None) = None
   \<and> (\<forall>path doc flags. Saved path doc flags \<notin>
            set (events (create_pdf_from_images no_images_world ''scans'' None)))"
proof -
  have f: "find_image_files no_images_world ''scans'' =
     [''scans/a_page2_x.png'', ''scans/a_page1_x.png'', ''scans/a_page10_x.png'']"
    by (simp add: find_image_files_plain no_images_world_def sample_world_def endswith_def
        join_def)
  have "\<forall>image_path \<in> set (find_image_files no_images_world ''scans'').
          images no_images_world image_path = None"
    by (simp add: no_images_world_def)
  with create_pdf_zero_pages [of no_images_world "''scans''" None] f show ?thesis
    by blast
qed

subsection \<open>File names and extensions\<close>

lemma rfind_present:
  assumes "c \<in> set p"
  shows "\<exists>a b. p = a @ c # b \<and> c \<notin> set b \<and> rfind c p = int (length a)"
proof -
  from split_list_last [OF assms] obtain a b where "p = a @ c # b" "c \<notin> set b" by blast
  then show ?thesis using rfind_last [of c b a] by blast
qed

lemma rfind_lower_bound: "- 1 \<le> rfind c p"
proof (cases "c \<in> set p")
  case True
  from rfind_present [OF this] show ?thesis by auto
next
  case False
  then show ?thesis by (simp add: rfind_absent)
qed

lemma splitext_cases:
  "splitext p = (p, []) \<or>
   (\<exists>a b. p = a @ CHR ''.'' # b \<and> CHR ''.'' \<notin> set b \<and> splitext p = (a, CHR ''.'' # b))"
proof (cases "CHR ''.'' \<in> set p")
  case False
  then have "rfind CHR ''.'' p = - 1" by (rule rfind_absent)
  then show ?thesis
    using rfind_lower_bound [of "CHR ''/''" p] by (simp add: splitext_def Let_def)
next
  case True
  from rfind_present [OF this] obtain a b where
    p: "p = a @ CHR ''.'' # b" and b: "CHR ''.'' \<notin> set b"
    and r: "rfind CHR ''.'' p = int (length a)" by blast
  have "take (length a) p = a" "drop (length a) p = CHR ''.'' # b" using p by simp_all
  then have "splitext p = (p, []) \<or> splitext p = (a, CHR ''.'' # b)"
    by (simp add: splitext_def Let_def r)
  then show ?thesis using p b by blast
qed

lemma splitext_append: "splitext p = (name, ext) \<Longrightarrow> name @ ext = p"
  using splitext_cases [of p] by auto

lemma splitext_ext:
  "splitext p = (name, ext) \<Longrightarrow> ext = [] \<or> (\<exists>b. ext = CHR ''.'' # b \<and> CHR ''.'' \<notin> set b)"
  using splitext_cases [of p] by auto

lemma endswith_iff: "endswith s t = (\<exists>u. s = u @ t)"
proof
  assume "endswith s t"
  then have "s = take (length s - length t) s @ t"
    by (metis append_take_drop_id endswith_def)
  then show "\<exists>u. s = u @ t" ..
next
  assume "\<exists>u. s = u @ t"
  then show "endswith s t" by (auto simp: endswith_def)
qed

lemma last_dot_unique:
  assumes "a @ c # b = a' @ (c::char) # b'" "c \<notin> set b" "c \<notin> set b'"
  shows "a = a' \<and> b = b'"
proof -
  have "rfind c (a @ c # b) = int (length a)" using assms(2) by (rule rfind_last)
  moreover have "rfind c (a' @ c # b') = int (length a')" using assms(3) by (rule rfind_last)
  ultimately have "length a = length a'" using assms(1) by simp
  with assms(1) show ?thesis by simp
qed

lemma lower_chr_dot: "(lower_chr c = CHR ''.'') = (c = CHR ''.'')"
  by (auto simp: lower_chr_def split: option.splits if_splits)

lemma lower_no_dot: "CHR ''.'' \<notin> set b \<Longrightarrow> CHR ''.'' \<notin> set (lower b)"
proof
  assume h: "CHR ''.'' \<notin> set b" and "CHR ''.'' \<in> set (lower b)"
  then obtain x where "x \<in> set b" "lower_chr x = CHR ''.''" by (auto simp: lower_def)
  with h show False by (simp add: lower_chr_dot)
qed

lemma default_name_pdf_suffix:
  assumes "ext = [] \<or> (\<exists>b. ext = CHR ''.'' # b \<and> CHR ''.'' \<notin> set b)"
  shows "endswith (lower (name @ ''_compressed'' @ ext)) ''.pdf'' = (lower ext = ''.pdf'')"
proof -
  have split: "lower (name @ ''_compressed'' @ ext) = lower (name @ ''_compressed'') @ lower ext"
    by (simp add: lower_def)
  show ?thesis
  proof (cases "ext = []")
    case True
    have "lower (name @ ''_compressed'') = lower name @ ''_compressed''"
      by (simp add: lower_def lower_chr_def)
    moreover have "\<not> endswith (lower name @ ''_compressed'') ''.pdf''"
      by (simp add: endswith_def)
    ultimately show ?thesis using True by (simp add: lower_def)
  next
    case False
    with assms obtain b where e: "ext = CHR ''.'' # b" and b: "CHR ''.'' \<notin> set b" by blast
    have le: "lower ext = CHR ''.'' # lower b"
      by (simp add: e lower_def lower_chr_def)
    have lb: "CHR ''.'' \<notin> set (lower b)" using b by (rule lower_no_dot)
    show ?thesis
    proof
      assume "lower ext = ''.pdf''"
      then have "lower (name @ ''_compressed'' @ ext) = lower (name @ ''_compressed'') @ ''.pdf''"
        using split by simp
      then show "endswith (lower (name @ ''_compressed'' @ ext)) ''.pdf''"
        unfolding endswith_iff by blast
    next
      assume "endswith (lower (name @ ''_compressed'' @ ext)) ''.pdf''"
      then obtain u where
        "lower (name @ ''_compressed'') @ CHR ''.'' # lower b = u @ CHR ''.'' # ''pdf''"
        unfolding endswith_iff split le by auto
      from last_dot_unique [OF this lb] have "lower b = ''pdf''" by simp
      then show "lower ext = ''.pdf''" by (simp add: le)
    qed
  qed
qed

text \<open>
  Claim C4, as the code has it. Without an output path, \<^verbatim>\<open>compress_pdf\<close> writes to
  \<open>name_compressed\<close> followed by the extension of the input itself, and appends
  \<^verbatim>\<open>.pdf\<close> only when that extension is not \<^verbatim>\<open>.pdf\<close> in some mix of cases. The
  result always ends in \<^verbatim>\<open>.pdf\<close> when lowered, and it is \<open>name_compressed.pdf\<close> exactly
  when the extension of the input is \<^verbatim>\<open>.pdf\<close> or empty.
\<close>

theorem compress_default_output:
  assumes "splitext input_pdf = (name, ext)"
  shows "name @ ext = input_pdf
     \<and> compress_output input_pdf None =
         name @ ''_compressed'' @ ext @ (if lower ext = ''.pdf'' then [] else ''.pdf'')
     \<and> endswith (lower (compress_output input_pdf None)) ''.pdf''
     \<and> ((compress_output input_pdf None = name @ ''_compressed.pdf'') = (ext = ''.pdf'' \<or> ext = []))"
proof -
  have e: "ext = [] \<or> (\<exists>b. ext = CHR ''.'' # b \<and> CHR ''.'' \<notin> set b)"
    using assms by (rule splitext_ext)
  have s: "endswith (lower (name @ ''_compressed'' @ ext)) ''.pdf'' = (lower ext = ''.pdf'')"
    using e by (rule default_name_pdf_suffix)
  have out: "compress_output input_pdf None =
         name @ ''_compressed'' @ ext @ (if lower ext = ''.pdf'' then [] else ''.pdf'')"
    using s by (simp add: compress_output_def assms)
  have lp: "lower ''.pdf'' = ''.pdf''" by (simp add: lower_def lower_chr_def)
  have suffix: "endswith (lower (compress_output input_pdf None)) ''.pdf''"
  proof (cases "lower ext = ''.pdf''")
    case True
    then show ?thesis using s out by simp
  next
    case False
    have "lower (name @ ''_compressed'' @ ext @ ''.pdf'') =
          lower (name @ ''_compressed'' @ ext) @ ''.pdf''"
      using lp by (simp add: lower_def)
    then show ?thesis unfolding endswith_iff using out False by auto
  qed
  have same: "(compress_output input_pdf None = name @ ''_compressed.pdf'') = (ext = ''.pdf'' \<or> ext = [])"
  proof (cases "lower ext = ''.pdf''")
    case True
    then have "ext \<noteq> []" by (auto simp: lower_def)
    then show ?thesis unfolding out using True by auto
  next
    case False
    then have "ext \<noteq> ''.pdf''" using lp by auto
    then show ?thesis unfolding out using False by auto
  qed
  show ?thesis using splitext_append [OF assms] out suffix same by blast
qed

theorem compress_default_output_witness:
  "splitext ''docs/report.pdf'' = (''docs/report'', ''.pdf'')
   \<and> compress_output ''docs/report.pdf'' None = ''docs/report_compressed.pdf''"
proof -
  have s: "splitext ''docs/report.pdf'' = (''docs/report'', ''.pdf'')"
    by (simp add: splitext_def rfind_def)
  from compress_default_output [OF s] s show ?thesis
    by (simp add: lower_def lower_chr_def)
qed

text \<open>
  The output name of claim C4 as it is written, \<open>name_compressed.pdf\<close> whatever the
  extension of the input: for \<^verbatim>\<open>scan.PDF\<close> the code gives \<^verbatim>\<open>scan_compressed.PDF\<close>, for
  \<^verbatim>\<open>notes.txt\<close> it gives \<^verbatim>\<open>notes_compressed.txt.pdf\<close>.
\<close>

theorem compress_default_output_counterexample:
  "compress_output ''scan.PDF'' None \<noteq> ''scan_compressed.pdf''
   \<and> compress_output ''notes.txt'' None \<noteq> ''notes_compressed.pdf''"
  by (simp add: compress_output_def splitext_def rfind_def endswith_def lower_def lower_chr_def)

subsection \<open>Decimal numbers\<close>

declare str.simps [simp del]

lemma digit_chr_is_digit: "d < 10 \<Longrightarrow> is_digit (digit_chr d)"
  unfolding is_digit_def digit_chr_def by (rule nth_mem) simp

lemma digit_val_chr: "d < 10 \<Longrightarrow> digit_val (digit_chr d) = d"
proof -
  assume "d < 10"
  then have "d = 0 \<or> d = 1 \<or> d = 2 \<or> d = 3 \<or> d = 4 \<or> d = 5 \<or> d = 6 \<or> d = 7
      \<or> d = 8 \<or> d = 9" by arith
  then show ?thesis by (elim disjE) (simp_all add: digit_chr_def digit_val_def)
qed

lemma str_digits: "\<forall>c \<in> set (str n). is_digit c"
proof (induction n rule: str.induct)
  case (1 n)
  show ?case
  proof (cases "n < 10")
    case True
    then show ?thesis by (subst str.simps) (simp add: digit_chr_is_digit)
  next
    case False
    with 1 have "\<forall>c \<in> set (str (n div 10)). is_digit c" by simp
    with False show ?thesis by (subst str.simps) (simp add: digit_chr_is_digit)
  qed
qed

lemma str_nonempty: "str n \<noteq> []"
  by (subst str.simps) simp

lemma py_int_snoc: "py_int (s @ [c]) = 10 * py_int s + digit_val c"
  by (simp add: py_int_def)

lemma py_int_str: "py_int (str n) = n"
proof (induction n rule: str.induct)
  case (1 n)
  show ?case
  proof (cases "n < 10")
    case True
    then show ?thesis by (subst str.simps) (simp add: py_int_def digit_val_chr)
  next
    case False
    with 1 have "py_int (str (n div 10)) = n div 10" by simp
    with False show ?thesis by (subst str.simps) (simp add: py_int_snoc digit_val_chr)
  qed
qed

lemma is_digit_cases:
  "is_digit c \<Longrightarrow> c \<noteq> CHR ''_'' \<and> c \<noteq> CHR 0x0A \<and> c \<noteq> CHR ''/'' \<and> lower_chr c = c"
proof -
  assume "is_digit c"
  then have "c = CHR ''0'' \<or> c = CHR ''1'' \<or> c = CHR ''2'' \<or> c = CHR ''3'' \<or> c = CHR ''4''
      \<or> c = CHR ''5'' \<or> c = CHR ''6'' \<or> c = CHR ''7'' \<or> c = CHR ''8'' \<or> c = CHR ''9''"
    by (simp add: is_digit_def)
  then show ?thesis by (elim disjE) (simp_all add: lower_chr_def)
qed

subsection \<open>The page pattern on the names that extraction writes\<close>

declare run.simps [simp del]

lemma page_pattern_unfold: "page_pattern = Seq (Many AnyChar 0) from_marker"
  by (simp add: page_pattern_def)

lemma marker_mismatch: "lower_chr c \<noteq> CHR ''_'' \<Longrightarrow> run (Lit ''_page'') (c # s, g) = []"
  by (simp add: run.simps lower_def lower_chr_def)

lemma no_marker_Cons:
  assumes "run (Lit ''_page'') (c # s, g) = []"
    and "\<forall>m. run (Lit ''_page'') (drop m s, g) = []"
  shows "\<forall>m. run (Lit ''_page'') (drop m (c # s), g) = []"
proof
  fix m
  show "run (Lit ''_page'') (drop m (c # s), g) = []"
    using assms by (cases m) simp_all
qed

lemma no_marker_Nil: "\<forall>m. run (Lit ''_page'') (drop m [], g) = []"
  by (simp add: run.simps)

lemma no_marker_digits:
  assumes "\<forall>c \<in> set ds. is_digit c"
    and "\<forall>m. run (Lit ''_page'') (drop m s, g) = []"
  shows "\<forall>m. run (Lit ''_page'') (drop m (ds @ s), g) = []"
  using assms(1)
proof (induction ds)
  case Nil
  then show ?case using assms(2) by simp
next
  case (Cons d ds)
  then have "lower_chr d \<noteq> CHR ''_''" using is_digit_cases [of d] by simp
  then have "run (Lit ''_page'') (d # ds @ s, g) = []" by (rule marker_mismatch)
  moreover have "\<forall>m. run (Lit ''_page'') (drop m (ds @ s), g) = []" using Cons by simp
  ultimately show ?case using no_marker_Cons [of d "ds @ s" g] by simp
qed

lemma no_marker_after:
  assumes "\<forall>c \<in> set ds1. is_digit c" and "\<forall>c \<in> set ds2. is_digit c"
  shows "\<forall>m. run (Lit ''_page'') (drop m (''page'' @ ds1 @ ''_img'' @ ds2 @ ''.png''), g) = []"
proof -
  have 1: "\<forall>m. run (Lit ''_page'') (drop m ''.png'', g) = []"
    by (intro no_marker_Cons no_marker_Nil marker_mismatch) (simp_all add: lower_chr_def)
  have 2: "\<forall>m. run (Lit ''_page'') (drop m (ds2 @ ''.png''), g) = []"
    using assms(2) 1 by (rule no_marker_digits)
  have 3: "\<forall>m. run (Lit ''_page'') (drop m (''img'' @ ds2 @ ''.png''), g) = []"
    using 2 by (auto intro!: no_marker_Cons [rule_format] marker_mismatch simp: lower_chr_def)
  have "run (Lit ''_page'') (''_img'' @ ds2 @ ''.png'', g) = []"
    by (simp add: run.simps lower_def lower_chr_def)
  with 3 have 4: "\<forall>m. run (Lit ''_page'') (drop m (''_img'' @ ds2 @ ''.png''), g) = []"
    using no_marker_Cons [of "CHR ''_''" "''img'' @ ds2 @ ''.png''" g] by simp
  have 5: "\<forall>m. run (Lit ''_page'') (drop m (ds1 @ ''_img'' @ ds2 @ ''.png''), g) = []"
    using assms(1) 4 by (rule no_marker_digits)
  show ?thesis
    using 5 by (auto intro!: no_marker_Cons [rule_format] marker_mismatch simp: lower_chr_def)
qed

lemma Lit_keeps_group: "st \<in> set (run (Lit w) (s, g)) \<Longrightarrow> snd st = g"
  by (auto simp: run.simps split: if_splits)

lemma Many_keeps_group: "st \<in> set (run (Many k m) (s, g)) \<Longrightarrow> snd st = g"
  by (auto simp: run.simps)

lemma EndAnchor_keeps_group: "st \<in> set (run EndAnchor (s, g)) \<Longrightarrow> snd st = g"
  by (auto simp: run.simps split: if_splits)

lemma Alt_keeps_group:
  assumes "\<And>s g st. st \<in> set (run a (s, g)) \<Longrightarrow> snd st = g"
    and "\<And>s g st. st \<in> set (run b (s, g)) \<Longrightarrow> snd st = g"
  shows "st \<in> set (run (Alt a b) (s, g)) \<Longrightarrow> snd st = g"
proof -
  assume "st \<in> set (run (Alt a b) (s, g))"
  then have "st \<in> set (run a (s, g)) \<or> st \<in> set (run b (s, g))"
    by (simp add: run.simps)
  then show "snd st = g" using assms by blast
qed

lemma Seq_keeps_group:
  assumes "\<And>s g st. st \<in> set (run a (s, g)) \<Longrightarrow> snd st = g"
    and "\<And>s g st. st \<in> set (run b (s, g)) \<Longrightarrow> snd st = g"
  shows "st \<in> set (run (Seq a b) (s, g)) \<Longrightarrow> snd st = g"
proof -
  assume "st \<in> set (run (Seq a b) (s, g))"
  then obtain st' where 1: "st' \<in> set (run a (s, g))" and 2: "st \<in> set (run b st')"
    by (auto simp: run.simps)
  from 1 have "snd st' = g" by (rule assms(1))
  with 2 have "st \<in> set (run b (fst st', g))" by (metis prod.collapse)
  then show "snd st = g" by (rule assms(2))
qed

lemma after_number_keeps_group: "st \<in> set (run after_number (s, g)) \<Longrightarrow> snd st = g"
  by (erule Seq_keeps_group [rotated 2] Alt_keeps_group [rotated 2] Lit_keeps_group
      Many_keeps_group EndAnchor_keeps_group)+

lemma after_number_matches:
  assumes "CHR 0x0A \<notin> set r"
  shows "([], g) \<in> set (run after_number (''_'' @ r @ ''.png'', g))"
proof -
  have tw: "takeWhile (in_class AnyChar) (r @ ''.png'') = r @ ''.png''"
    using assms by (auto simp: takeWhile_eq_all_conv)
  have "(drop (length r) (r @ ''.png''), g) \<in> set (run (Many AnyChar 0) (r @ ''.png'', g))"
    unfolding run.simps fst_conv snd_conv tw set_map
    by (rule image_eqI [where x = "length r"]) simp_all
  then have cand: "(''.png'', g) \<in> set (run (Many AnyChar 0) (r @ ''.png'', g))"
    by simp
  have rest: "([], g) \<in> set (run (Seq (Lit ''.'') (Seq extension_alternatives EndAnchor)) (''.png'', g))"
    by (simp add: run.simps lower_def lower_chr_def)
  have first: "run (Lit ''_'') (''_'' @ r @ ''.png'', g) = [(r @ ''.png'', g)]"
    by (simp add: run.simps lower_def lower_chr_def)
  have "([], g) \<in> set (run (Seq (Many AnyChar 0) (Seq (Lit ''.'') (Seq extension_alternatives EndAnchor))) (r @ ''.png'', g))"
    using cand rest by (subst run.simps) auto
  then show ?thesis
    using first by (subst run.simps) simp
qed

lemma concat_map_skip:
  "\<forall>x \<in> set xs. f x = [] \<Longrightarrow> concat (map f (xs @ ys)) = concat (map f ys)"
  by (induction xs) simp_all

lemma number_then_rest:
  assumes "ds \<noteq> []" and "\<forall>c \<in> set ds. is_digit c" and "\<not> is_digit c"
    and "run after_number (c # r, Some ds) \<noteq> []"
  shows "\<exists>st sts. run (Seq (Group (Many DigitChar 1)) after_number) (ds @ c # r, g) = st # sts
           \<and> snd st = Some ds"
proof -
  let ?s = "ds @ c # r"
  let ?G = "\<lambda>st'. (fst st', Some (take (length ?s - length (fst st')) ?s))"
  have tw: "takeWhile (in_class DigitChar) ?s = ds"
    using assms(2,3) by (simp add: takeWhile_tail takeWhile_eq_all_conv)
  have len: "1 \<le> length ds" using assms(1) by (cases ds) simp_all
  have cands: "rev [1 ..< Suc (length ds)] = length ds # rev [1 ..< length ds]"
    using len by simp
  have d: "drop (length ds) ?s = c # r" by simp
  have t: "take (length ?s - length (c # r)) ?s = ds" by simp
  have grp: "run (Group (Many DigitChar 1)) (?s, g) =
      (c # r, Some ds) # map ?G (map (\<lambda>j. (drop j ?s, g)) (rev [1 ..< length ds]))"
    by (simp only: run.simps fst_conv snd_conv tw cands list.map d t)
  obtain st sts where first: "run after_number (c # r, Some ds) = st # sts"
    using assms(4) by (cases "run after_number (c # r, Some ds)") auto
  then have "st \<in> set (run after_number (c # r, Some ds))" by simp
  then have kept: "snd st = Some ds" by (rule after_number_keeps_group)
  have "run (Seq (Group (Many DigitChar 1)) after_number) (?s, g) =
      concat (map (run after_number) (run (Group (Many DigitChar 1)) (?s, g)))"
    by (simp only: run.simps)
  also have "\<dots> = st # sts @ concat (map (run after_number)
        (map ?G (map (\<lambda>j. (drop j ?s, g)) (rev [1 ..< length ds]))))"
    by (simp only: grp list.map concat.simps first append_Cons)
  finally show ?thesis using kept by blast
qed

lemma from_marker_matches:
  assumes "ds1 \<noteq> []" and "\<forall>c \<in> set ds1. is_digit c" and "\<forall>c \<in> set ds2. is_digit c"
  shows "\<exists>st sts. run from_marker (''_page'' @ ds1 @ ''_img'' @ ds2 @ ''.png'', g) = st # sts
           \<and> snd st = Some ds1"
proof -
  have nl: "CHR 0x0A \<notin> set (''img'' @ ds2)"
    using assms(3) is_digit_cases by auto
  have nd: "\<not> is_digit CHR ''_''" by (simp add: is_digit_def)
  have "([], Some ds1) \<in> set (run after_number (''_'' @ (''img'' @ ds2) @ ''.png'', Some ds1))"
    using nl by (rule after_number_matches)
  then have ne: "run after_number (CHR ''_'' # ''img'' @ ds2 @ ''.png'', Some ds1) \<noteq> []"
    by auto
  from number_then_rest [OF assms(1,2) nd ne, of g] obtain st sts where
    1: "run (Seq (Group (Many DigitChar 1)) after_number)
       (ds1 @ CHR ''_'' # ''img'' @ ds2 @ ''.png'', g) = st # sts"
    and 2: "snd st = Some ds1" by auto
  have m: "run (Lit ''_page'') (''_page'' @ ds1 @ ''_img'' @ ds2 @ ''.png'', g) =
      [(ds1 @ CHR ''_'' # ''img'' @ ds2 @ ''.png'', g)]"
    by (simp add: run.simps lower_def)
  have "run from_marker (''_page'' @ ds1 @ ''_img'' @ ds2 @ ''.png'', g) =
      concat (map (run (Seq (Group (Many DigitChar 1)) after_number))
        (run (Lit ''_page'') (''_page'' @ ds1 @ ''_img'' @ ds2 @ ''.png'', g)))"
    by (simp only: run.simps)
  also have "\<dots> = st # sts"
    by (simp only: m list.map concat.simps 1 append_Nil2)
  finally show ?thesis using 2 by blast
qed

lemma from_marker_fails:
  assumes "\<forall>c \<in> set ds1. is_digit c" and "\<forall>c \<in> set ds2. is_digit c" and "0 < k"
  shows "run from_marker (drop k (''_page'' @ ds1 @ ''_img'' @ ds2 @ ''.png''), g) = []"
proof -
  from assms(3) obtain m where k: "k = Suc m" by (cases k) auto
  have d: "drop k (''_page'' @ ds1 @ ''_img'' @ ds2 @ ''.png'') =
           drop m (''page'' @ ds1 @ ''_img'' @ ds2 @ ''.png'')"
    by (simp add: k)
  have "run (Lit ''_page'') (drop m (''page'' @ ds1 @ ''_img'' @ ds2 @ ''.png''), g) = []"
    using no_marker_after [OF assms(1,2)] by blast
  then show ?thesis
    by (simp only: run.simps d list.map concat.simps)
qed


lemma upt_split_at:
  "b \<le> n \<Longrightarrow> rev [0 ..< Suc n] = rev [Suc b ..< Suc n] @ b # rev [0 ..< b]"
proof -
  assume "b \<le> n"
  then have "[0 ..< Suc n] = [0 ..< b] @ [b ..< Suc n]"
    by (metis le_SucI le_add_diff_inverse upt_add_eq_append zero_le)
  moreover have "[b ..< Suc n] = b # [Suc b ..< Suc n]"
    using \<open>b \<le> n\<close> by (simp add: upt_conv_Cons)
  ultimately show ?thesis by simp
qed

lemma page_pattern_on_extracted:
  assumes "CHR 0x0A \<notin> set base"
    and "ds1 \<noteq> []" and "\<forall>c \<in> set ds1. is_digit c" and "\<forall>c \<in> set ds2. is_digit c"
  shows "re_match page_pattern (base @ ''_page'' @ ds1 @ ''_img'' @ ds2 @ ''.png'') = Some (Some ds1)"
proof -
  define t where "t = ''_page'' @ ds1 @ ''_img'' @ ds2 @ ''.png''"
  define f where "f = (\<lambda>j. run from_marker (drop j (base @ t), None))"
  let ?b = "length base"
  have nl: "CHR 0x0A \<notin> set (base @ t)"
    using assms(1,3,4) is_digit_cases by (auto simp: t_def)
  have tw: "takeWhile (in_class AnyChar) (base @ t) = base @ t"
    using nl by (auto simp: takeWhile_eq_all_conv)
  have cands: "rev [0 ..< Suc (length (base @ t))] =
      rev [Suc ?b ..< Suc (length (base @ t))] @ ?b # rev [0 ..< ?b]"
    by (rule upt_split_at) simp
  have skip: "\<forall>j \<in> set (rev [Suc ?b ..< Suc (length (base @ t))]). f j = []"
  proof
    fix j assume "j \<in> set (rev [Suc ?b ..< Suc (length (base @ t))])"
    then have "?b < j" by auto
    then have "drop j (base @ t) = drop (j - ?b) t" "0 < j - ?b" by simp_all
    then show "f j = []"
      unfolding f_def t_def using from_marker_fails [OF assms(3,4)] by simp
  qed
  obtain st sts where hit: "f ?b = st # sts" and grp: "snd st = Some ds1"
    using from_marker_matches [OF assms(2,3,4), of None] by (auto simp: f_def t_def)
  have "run page_pattern (base @ t, None) =
      concat (map (run from_marker) (run (Many AnyChar 0) (base @ t, None)))"
    unfolding page_pattern_unfold by (simp only: run.simps)
  also have "\<dots> = concat (map f (rev [0 ..< Suc (length (base @ t))]))"
    by (simp only: run.simps fst_conv snd_conv tw map_map comp_def f_def)
  also have "\<dots> = concat (map f (?b # rev [0 ..< ?b]))"
    unfolding cands using skip by (rule concat_map_skip)
  also have "\<dots> = st # sts @ concat (map f (rev [0 ..< ?b]))"
    using hit by simp
  finally show ?thesis
    using grp by (simp add: re_match_def t_def)
qed

lemma basename_plain: "CHR ''/'' \<notin> set name \<Longrightarrow> basename name = name"
  by (simp add: basename_def rfind_absent)

lemma basename_after_slash:
  assumes "CHR ''/'' \<notin> set name"
  shows "basename (f @ CHR ''/'' # name) = name"
proof -
  have "rfind CHR ''/'' (f @ CHR ''/'' # name) = int (length f)"
    using assms by (rule rfind_last)
  moreover have "nat (int (length f) + 1) = Suc (length f)" by simp
  ultimately show ?thesis by (simp add: basename_def)
qed

lemma basename_join:
  assumes "CHR ''/'' \<notin> set name" and "name \<noteq> []"
  shows "basename (join folder name) = name"
proof -
  have h: "hd name \<noteq> CHR ''/''" using assms hd_in_set by metis
  show ?thesis
  proof (cases "folder = []")
    case True
    then show ?thesis using assms h by (simp add: join_def basename_plain)
  next
    case False
    show ?thesis
    proof (cases "last folder = CHR ''/''")
      case True
      with False obtain f where f: "folder = f @ [CHR ''/'']"
        by (metis append_butlast_last_id)
      have "join folder name = f @ CHR ''/'' # name"
        using h assms(2) by (simp add: join_def f)
      then show ?thesis using basename_after_slash [OF assms(1)] by simp
    next
      case l: False
      have "join folder name = folder @ CHR ''/'' # name"
        using h assms(2) l False by (simp add: join_def)
      then show ?thesis using basename_after_slash [OF assms(1)] by simp
    qed
  qed
qed

lemma img_filename_no_slash:
  "CHR ''/'' \<notin> set pdf_name \<Longrightarrow> CHR ''/'' \<notin> set (img_filename pdf_name page_num img_index)"
  using str_digits [of "page_num + 1"] str_digits [of "img_index + 1"] is_digit_cases
  by (auto simp: img_filename_def)

lemma img_filename_nonempty: "img_filename pdf_name page_num img_index \<noteq> []"
  by (simp add: img_filename_def)

text \<open>
  For a base name without a newline (and, being a base name, without a slash) the name
  that extraction gives to image \<open>img_index\<close> of page \<open>page_num\<close> matches the page
  pattern, group 1 is the decimal text of the 1-based page number, and the page number
  read back is that number, also when the name is joined to an output folder.
\<close>

lemma extracted_name_parses:
  assumes "CHR 0x0A \<notin> set pdf_name" and "CHR ''/'' \<notin> set pdf_name"
  shows "re_match page_pattern (img_filename pdf_name page_num img_index)
           = Some (Some (str (page_num + 1)))
     \<and> parse_page (img_filename pdf_name page_num img_index) = Some (page_num + 1)
     \<and> parse_page (join output_folder (img_filename pdf_name page_num img_index))
           = Some (page_num + 1)"
proof -
  have m: "re_match page_pattern (img_filename pdf_name page_num img_index)
           = Some (Some (str (page_num + 1)))"
    unfolding img_filename_def
    using assms(1) str_nonempty str_digits str_digits by (rule page_pattern_on_extracted)
  have b1: "basename (img_filename pdf_name page_num img_index)
            = img_filename pdf_name page_num img_index"
    using img_filename_no_slash [OF assms(2)] by (rule basename_plain)
  have b2: "basename (join output_folder (img_filename pdf_name page_num img_index))
            = img_filename pdf_name page_num img_index"
    using img_filename_no_slash [OF assms(2)] img_filename_nonempty by (rule basename_join)
  show ?thesis
    using m by (simp add: parse_page_def b1 b2 py_int_str)
qed

text \<open>
  A newline in the input stops the pattern: no part of it but \<^verbatim>\<open>$\<close> lets a newline
  pass, and \<^verbatim>\<open>$\<close> only one that ends the input. So the names of extraction that match
  are exactly those of the base names without a newline.
\<close>

lemma Lit_stays_before_newline:
  assumes "CHR 0x0A \<notin> set (lower w)" and "st \<in> set (run (Lit w) (u @ CHR 0x0A # v, g))"
  shows "\<exists>u'. fst st = u' @ CHR 0x0A # v"
proof (cases "length w \<le> length u")
  case True
  with assms(2) have "fst st = drop (length w) u @ CHR 0x0A # v"
    by (auto simp: run.simps split: if_splits)
  then show ?thesis by blast
next
  case False
  have "lower (take (length w) (u @ CHR 0x0A # v)) \<noteq> lower w"
  proof
    assume eq: "lower (take (length w) (u @ CHR 0x0A # v)) = lower w"
    from False have "take (length w) (u @ CHR 0x0A # v)
        = u @ CHR 0x0A # take (length w - Suc (length u)) v"
      by (simp add: take_Cons')
    then have "CHR 0x0A \<in> set (lower (take (length w) (u @ CHR 0x0A # v)))"
      by (simp add: lower_def lower_chr_def)
    with eq assms(1) show False by simp
  qed
  with assms(2) show ?thesis by (simp add: run.simps)
qed

lemma Many_stays_before_newline:
  assumes "st \<in> set (run (Many k m) (u @ CHR 0x0A # v, g))"
  shows "\<exists>u'. fst st = u' @ CHR 0x0A # v"
proof -
  let ?s = "u @ CHR 0x0A # v"
  have nl: "\<not> in_class k CHR 0x0A" by (cases k) (simp_all add: is_digit_def)
  have tw: "takeWhile (in_class k) ?s = takeWhile (in_class k) u"
    using nl by (rule takeWhile_tail)
  from assms have "st \<in> (\<lambda>j. (drop j ?s, g)) ` set (rev [m ..< Suc (length (takeWhile (in_class k) u))])"
    by (simp only: run.simps fst_conv snd_conv tw set_map)
  then obtain j where st: "st = (drop j ?s, g)"
    and j: "j \<in> set (rev [m ..< Suc (length (takeWhile (in_class k) u))])"
    by blast
  from j have "j \<le> length (takeWhile (in_class k) u)" by auto
  moreover have "length (takeWhile (in_class k) u) \<le> length u" by (rule length_takeWhile_le)
  ultimately have "drop j ?s = drop j u @ CHR 0x0A # v" by simp
  then show ?thesis using st by simp
qed

lemma Alt_stays_before_newline:
  assumes "\<And>u g st. st \<in> set (run a (u @ z, g)) \<Longrightarrow> \<exists>u'. fst st = u' @ z"
    and "\<And>u g st. st \<in> set (run b (u @ z, g)) \<Longrightarrow> \<exists>u'. fst st = u' @ z"
    and "st \<in> set (run (Alt a b) (u @ z, g))"
  shows "\<exists>u'. fst st = u' @ z"
proof -
  from assms(3) have "st \<in> set (run a (u @ z, g)) \<or> st \<in> set (run b (u @ z, g))"
    by (simp add: run.simps)
  then show ?thesis using assms(1,2) by blast
qed

lemma Group_stays_before_newline:
  assumes "\<And>u g st. st \<in> set (run a (u @ z, g)) \<Longrightarrow> \<exists>u'. fst st = u' @ z"
    and "st \<in> set (run (Group a) (u @ z, g))"
  shows "\<exists>u'. fst st = u' @ z"
proof -
  from assms(2) obtain st' where "st' \<in> set (run a (u @ z, g))" "fst st = fst st'"
    by (auto simp: run.simps)
  then show ?thesis using assms(1) by metis
qed

lemma Seq_blocked:
  assumes "\<And>u g st. st \<in> set (run a (u @ z, g)) \<Longrightarrow> \<exists>u'. fst st = u' @ z"
    and "\<And>u g. run b (u @ z, g) = []"
  shows "run (Seq a b) (u @ z, g) = []"
proof -
  have "run b st = []" if "st \<in> set (run a (u @ z, g))" for st
  proof -
    from assms(1) [OF that] obtain u' where "fst st = u' @ z" by blast
    then have "st = (u' @ z, snd st)" by (metis prod.collapse)
    then show ?thesis using assms(2) by metis
  qed
  then show ?thesis by (simp add: run.simps)
qed

lemma EndAnchor_blocked: "v \<noteq> [] \<Longrightarrow> run EndAnchor (u @ CHR 0x0A # v, g) = []"
  by (cases u) (simp_all add: run.simps)

lemma page_pattern_blocked:
  assumes "v \<noteq> []"
  shows "run page_pattern (u @ CHR 0x0A # v, g) = []"
  unfolding page_pattern_def
  by (intro Seq_blocked EndAnchor_blocked assms;
      (elim Alt_stays_before_newline [rotated 2] Group_stays_before_newline [rotated]
            Many_stays_before_newline Lit_stays_before_newline [rotated])+;
      simp add: lower_def lower_chr_def)

lemma extracted_name_match_iff:
  "(re_match page_pattern (img_filename pdf_name page_num img_index) \<noteq> None)
     = (CHR 0x0A \<notin> set pdf_name)"
proof (cases "CHR 0x0A \<in> set pdf_name")
  case False
  then have "re_match page_pattern (img_filename pdf_name page_num img_index)
           = Some (Some (str (page_num + 1)))"
    unfolding img_filename_def
    using str_nonempty str_digits str_digits by (intro page_pattern_on_extracted)
  with False show ?thesis by simp
next
  case True
  then obtain a b where "pdf_name = a @ CHR 0x0A # b"
    by (auto dest: split_list)
  then have "img_filename pdf_name page_num img_index =
      a @ CHR 0x0A # (b @ ''_page'' @ str (page_num + 1) @ ''_img'' @ str (img_index + 1) @ ''.png'')"
    by (simp add: img_filename_def)
  moreover have "run page_pattern
      (a @ CHR 0x0A # (b @ ''_page'' @ str (page_num + 1) @ ''_img'' @ str (img_index + 1) @ ''.png''),
       None) = []"
    by (rule page_pattern_blocked) simp
  ultimately show ?thesis using True by (simp add: re_match_def)
qed

text \<open>
  Claim C10 at a base name that holds a newline. The PDF \<^verbatim>\<open>in/a\nb.pdf\<close> has the base
  name \<^verbatim>\<open>a\nb\<close>, extraction names the first image of its first page
  \<^verbatim>\<open>a\nb_page1_img1.png\<close>, and the page pattern does not match that name: \<^verbatim>\<open>.\<close> does
  not match a newline, so the greedy prefix cannot reach the marker.
\<close>

theorem extracted_name_with_newline_unmatched:
  "fst (splitext (basename (''in/a'' @ [CHR 0x0A] @ ''b.pdf''))) = ''a'' @ [CHR 0x0A] @ ''b''
   \<and> img_filename (''a'' @ [CHR 0x0A] @ ''b'') 0 0 = ''a'' @ [CHR 0x0A] @ ''b_page1_img1.png''
   \<and> re_match page_pattern (img_filename (''a'' @ [CHR 0x0A] @ ''b'') 0 0) = None
   \<and> parse_page (join ''out'' (img_filename (''a'' @ [CHR 0x0A] @ ''b'') 0 0)) = None"
  by code_simp

subsection \<open>PDF assembly: the order of the pages\<close>

lemma collect_pages_eq:
  "collect_pages image_files page_images =
     page_images @
     concat (map (\<lambda>image_path. case parse_page image_path of
                                  Some page_num \<Rightarrow> [(page_num, image_path)] | None \<Rightarrow> [])
               image_files)"
  by (induction image_files arbitrary: page_images) (simp_all split: option.splits)

lemma add_pages_eq:
  "add_pages w page_images pdf_document =
     pdf_document @
     concat (map (\<lambda>numbered. case images w (snd numbered) of
                                 None \<Rightarrow> [] | Some img \<Rightarrow> [image_page w img])
               page_images)"
  by (induction page_images arbitrary: pdf_document) (simp_all split: option.splits)

lemma saved_pages:
  assumes "Saved path doc flags \<in> set (events (create_pdf_from_images w directory_path output_pdf))"
  shows "doc = add_pages w (sorted_page_images (find_image_files w directory_path)) []"
  using assms by (auto simp: create_pdf_from_images_def Let_def split: if_splits)

lemma sample_files: "find_image_files sample_world ''scans'' =
     [''scans/a_page2_x.png'', ''scans/a_page1_x.png'', ''scans/a_page10_x.png'']"
  by (simp add: find_image_files_plain sample_world_def endswith_def join_def)

lemma sample_sorted: "sorted_page_images (find_image_files sample_world ''scans'') =
    [(1, ''scans/a_page1_x.png''), (2, ''scans/a_page2_x.png''), (10, ''scans/a_page10_x.png'')]"
proof -
  have "parse_page ''scans/a_page2_x.png'' = Some 2"
    and "parse_page ''scans/a_page1_x.png'' = Some 1"
    and "parse_page ''scans/a_page10_x.png'' = Some 10"
    by code_simp+
  then show ?thesis by (simp add: sample_files sorted_page_images_def)
qed

lemma sample_created:
  "create_pdf_from_images sample_world ''scans'' None =
     \<lparr>ret = Some ''scans_combined.pdf'',
      events = [Saved ''scans_combined.pdf''
                  [image_page sample_world [ [1, 1] ], image_page sample_world [ [2, 2] ],
                   image_page sample_world [ [10, 10] ] ] [] ]\<rparr>"
proof -
  have n: "collect_pages (find_image_files sample_world ''scans'') [] \<noteq> []"
    using sample_sorted by (auto simp: sorted_page_images_def)
  have a: "add_pages sample_world (sorted_page_images (find_image_files sample_world ''scans'')) []
     = [image_page sample_world [ [1, 1] ], image_page sample_world [ [2, 2] ],
                   image_page sample_world [ [10, 10] ] ]"
    unfolding sample_sorted by (simp add: sample_world_def)
  have o: "basename (rstrip [CHR ''/'', CHR 0x5C] ''scans'') @ ''_combined.pdf'' = ''scans_combined.pdf''"
    by (simp add: basename_def rstrip_def rfind_def)
  have e: "endswith (lower ''scans_combined.pdf'') ''.pdf''"
    by (simp add: endswith_def lower_def lower_chr_def)
  have x: "path_exists sample_world ''scans''" "can_write sample_world ''scans_combined.pdf''"
    by (simp_all add: sample_world_def)
  show ?thesis
    unfolding create_pdf_from_images_def Let_def
    by (simp only: x n [unfolded sample_files] a [unfolded sample_files] o e sample_files option.case if_True if_False not_True_eq_False not_False_eq_True list.distinct length_Cons list.size nat.distinct refl simp_thms)
qed

text \<open>
  Claim C3. The pairs are the (page number, path) of every file whose base name matches
  the page pattern, in file order; sorting leaves the same pairs (duplicates included),
  ascending by page number, and pairs with the same page number keep their file order.
  A document that \<^verbatim>\<open>create_pdf_from_images\<close> saves holds, in this sorted order, one page
  for each pair whose image can be opened. The order is the one of the numbers: page 10
  comes after page 2.
\<close>

theorem page_images_sorted_stably:
  "sorted (map fst (sorted_page_images image_files))
   \<and> mset (sorted_page_images image_files) = mset (collect_pages image_files [])
   \<and> (\<forall>k. filter (\<lambda>numbered. fst numbered = k) (sorted_page_images image_files) =
            filter (\<lambda>numbered. fst numbered = k) (collect_pages image_files []))
   \<and> collect_pages image_files [] =
       concat (map (\<lambda>image_path. case parse_page image_path of
                                    Some page_num \<Rightarrow> [(page_num, image_path)] | None \<Rightarrow> [])
                 image_files)
   \<and> (\<forall>path doc flags.
         Saved path doc flags \<in> set (events (create_pdf_from_images w directory_path output_pdf)) \<longrightarrow>
         doc = concat (map (\<lambda>numbered. case images w (snd numbered) of
                                          None \<Rightarrow> [] | Some img \<Rightarrow> [image_page w img])
                        (sorted_page_images (find_image_files w directory_path))))
   \<and> sorted_page_images [''d/a_page2_x.png'', ''d/a_page1_x.png'', ''d/a_page10_x.png''] =
       [(1, ''d/a_page1_x.png''), (2, ''d/a_page2_x.png''), (10, ''d/a_page10_x.png'')]"
proof (intro conjI allI impI)
  show "sorted (map fst (sorted_page_images image_files))"
    by (simp add: sorted_page_images_def)
  show "mset (sorted_page_images image_files) = mset (collect_pages image_files [])"
    by (simp add: sorted_page_images_def)
  show "filter (\<lambda>numbered. fst numbered = k) (sorted_page_images image_files) =
        filter (\<lambda>numbered. fst numbered = k) (collect_pages image_files [])" for k
    unfolding sorted_page_images_def by (rule sort_key_stable)
  show "collect_pages image_files [] =
       concat (map (\<lambda>image_path. case parse_page image_path of
                                    Some page_num \<Rightarrow> [(page_num, image_path)] | None \<Rightarrow> [])
                 image_files)"
    using collect_pages_eq [of image_files "[]"] by simp
  show "doc = concat (map (\<lambda>numbered. case images w (snd numbered) of
                                          None \<Rightarrow> [] | Some img \<Rightarrow> [image_page w img])
                        (sorted_page_images (find_image_files w directory_path)))"
    if "Saved path doc flags \<in> set (events (create_pdf_from_images w directory_path output_pdf))"
    for path doc flags
    using saved_pages [OF that] by (simp add: add_pages_eq)
  have "parse_page ''d/a_page2_x.png'' = Some 2"
    and "parse_page ''d/a_page1_x.png'' = Some 1"
    and "parse_page ''d/a_page10_x.png'' = Some 10"
    by code_simp+
  then show "sorted_page_images [''d/a_page2_x.png'', ''d/a_page1_x.png'', ''d/a_page10_x.png''] =
       [(1, ''d/a_page1_x.png''), (2, ''d/a_page2_x.png''), (10, ''d/a_page10_x.png'')]"
    by (simp add: sorted_page_images_def)
qed

theorem page_images_sorted_stably_witness:
  "events (create_pdf_from_images sample_world ''scans'' None) =
     [Saved ''scans_combined.pdf''
        [image_page sample_world [ [1, 1] ], image_page sample_world [ [2, 2] ],
         image_page sample_world [ [10, 10] ] ] [] ]
   \<and> concat (map (\<lambda>numbered. case images sample_world (snd numbered) of
                                  None \<Rightarrow> [] | Some img \<Rightarrow> [image_page sample_world img])
                (sorted_page_images (find_image_files sample_world ''scans'')))
       = [image_page sample_world [ [1, 1] ], image_page sample_world [ [2, 2] ],
          image_page sample_world [ [10, 10] ] ]
   \<and> filter (\<lambda>numbered. fst numbered = 2)
       (sorted_page_images
          [''d/b_page2_y.jpg'', ''d/notes.png'', ''d/a_page2_x.png'', ''d/a_page1_x.png''])
     = [(2, ''d/b_page2_y.jpg''), (2, ''d/a_page2_x.png'')]"
proof -
  have "parse_page ''d/b_page2_y.jpg'' = Some 2"
    and "parse_page ''d/notes.png'' = None"
    and "parse_page ''d/a_page2_x.png'' = Some 2"
    and "parse_page ''d/a_page1_x.png'' = Some 1"
    by code_simp+
  then have c: "collect_pages
       [''d/b_page2_y.jpg'', ''d/notes.png'', ''d/a_page2_x.png'', ''d/a_page1_x.png''] []
     = [(2, ''d/b_page2_y.jpg''), (2, ''d/a_page2_x.png''), (1, ''d/a_page1_x.png'')]"
    by simp
  have e: "events (create_pdf_from_images sample_world ''scans'' None) =
     [Saved ''scans_combined.pdf''
        [image_page sample_world [ [1, 1] ], image_page sample_world [ [2, 2] ],
         image_page sample_world [ [10, 10] ] ] [] ]"
    by (simp add: sample_created)
  then have s: "Saved ''scans_combined.pdf''
        [image_page sample_world [ [1, 1] ], image_page sample_world [ [2, 2] ],
         image_page sample_world [ [10, 10] ] ] []
      \<in> set (events (create_pdf_from_images sample_world ''scans'' None))"
    by simp
  from page_images_sorted_stably
         [of "[''d/b_page2_y.jpg'', ''d/notes.png'', ''d/a_page2_x.png'', ''d/a_page1_x.png'']"
             sample_world "''scans''" None]
  have f: "filter (\<lambda>numbered. fst numbered = 2)
       (sorted_page_images
          [''d/b_page2_y.jpg'', ''d/notes.png'', ''d/a_page2_x.png'', ''d/a_page1_x.png''])
     = filter (\<lambda>numbered. fst numbered = 2) (collect_pages
       [''d/b_page2_y.jpg'', ''d/notes.png'', ''d/a_page2_x.png'', ''d/a_page1_x.png''] [])"
    and d: "\<forall>path doc flags.
         Saved path doc flags \<in> set (events (create_pdf_from_images sample_world ''scans'' None)) \<longrightarrow>
         doc = concat (map (\<lambda>numbered. case images sample_world (snd numbered) of
                                          None \<Rightarrow> [] | Some img \<Rightarrow> [image_page sample_world img])
                        (sorted_page_images (find_image_files sample_world ''scans'')))"
    by blast+
  from d s have "[image_page sample_world [ [1, 1] ], image_page sample_world [ [2, 2] ],
         image_page sample_world [ [10, 10] ] ]
     = concat (map (\<lambda>numbered. case images sample_world (snd numbered) of
                                          None \<Rightarrow> [] | Some img \<Rightarrow> [image_page sample_world img])
                        (sorted_page_images (find_image_files sample_world ''scans'')))"
    by blast
  then have "concat (map (\<lambda>numbered. case images sample_world (snd numbered) of
                                          None \<Rightarrow> [] | Some img \<Rightarrow> [image_page sample_world img])
                        (sorted_page_images (find_image_files sample_world ''scans'')))
     = [image_page sample_world [ [1, 1] ], image_page sample_world [ [2, 2] ],
         image_page sample_world [ [10, 10] ] ]"
    by (rule sym)
  moreover have "filter (\<lambda>numbered. fst numbered = 2)
       (sorted_page_images
          [''d/b_page2_y.jpg'', ''d/notes.png'', ''d/a_page2_x.png'', ''d/a_page1_x.png''])
     = [(2, ''d/b_page2_y.jpg''), (2, ''d/a_page2_x.png'')]"
    unfolding f c by simp
  ultimately show ?thesis using e by blast
qed

subsection \<open>Image extraction: which files are written\<close>

lemma digits_prefix_unique:
  assumes "\<forall>c \<in> set d1. is_digit c" and "\<forall>c \<in> set d2. is_digit c"
    and "\<not> is_digit x" and "\<not> is_digit y" and "d1 @ x # r1 = d2 @ y # r2"
  shows "d1 = d2 \<and> r1 = r2"
proof -
  have "takeWhile is_digit (d1 @ x # r1) = d1"
    using assms(1,3) by (simp add: takeWhile_tail takeWhile_eq_all_conv)
  moreover have "takeWhile is_digit (d2 @ y # r2) = d2"
    using assms(2,4) by (simp add: takeWhile_tail takeWhile_eq_all_conv)
  ultimately have "d1 = d2" using assms(5) by simp
  with assms(5) show ?thesis by simp
qed

lemma str_inject: "str a = str b \<Longrightarrow> a = b"
  by (metis py_int_str)

lemma img_filename_inject:
  assumes "img_filename pdf_name p i = img_filename pdf_name p' i'"
  shows "p = p' \<and> i = i'"
proof -
  have nu: "\<not> is_digit CHR ''_''" and nd: "\<not> is_digit CHR ''.''"
    by (simp_all add: is_digit_def)
  from assms have "str (p + 1) @ CHR ''_'' # (''img'' @ str (i + 1) @ ''.png'') =
                   str (p' + 1) @ CHR ''_'' # (''img'' @ str (i' + 1) @ ''.png'')"
    by (simp add: img_filename_def)
  from digits_prefix_unique [OF str_digits str_digits nu nu this]
  have 1: "str (p + 1) = str (p' + 1)"
    and "str (i + 1) @ CHR ''.'' # ''png'' = str (i' + 1) @ CHR ''.'' # ''png''"
    by simp_all
  from digits_prefix_unique [OF str_digits str_digits nd nd this(2)]
  have 2: "str (i + 1) = str (i' + 1)" by simp
  from 1 2 show ?thesis using str_inject by fastforce
qed

lemma basename_no_slash: "CHR ''/'' \<notin> set (basename p)"
proof (cases "CHR ''/'' \<in> set p")
  case False
  then show ?thesis by (simp add: basename_plain)
next
  case True
  from rfind_present [OF this] obtain a b where
    "p = a @ CHR ''/'' # b" "CHR ''/'' \<notin> set b" by blast
  then show ?thesis using basename_after_slash [of b a] by simp
qed

lemma pdf_name_no_slash: "CHR ''/'' \<notin> set (fst (splitext (basename pdf_path)))"
proof -
  obtain name ext where s: "splitext (basename pdf_path) = (name, ext)"
    by (cases "splitext (basename pdf_path)")
  from splitext_append [OF this] have "set name \<subseteq> set (basename pdf_path)"
    by (metis set_append sup_ge1)
  then show ?thesis using basename_no_slash [of pdf_path] s by auto
qed

lemma join_inject:
  assumes "join folder a = join folder b"
    and "a \<noteq> []" "hd a \<noteq> CHR ''/''" "b \<noteq> []" "hd b \<noteq> CHR ''/''"
  shows "a = b"
  using assms by (auto simp: join_def split: if_splits)

lemma img_path_inject:
  assumes "CHR ''/'' \<notin> set pdf_name"
    and "join folder (img_filename pdf_name p i) = join folder (img_filename pdf_name p' i')"
  shows "p = p' \<and> i = i'"
proof -
  have h: "hd (img_filename pdf_name q j) \<noteq> CHR ''/''" for q j
    using img_filename_no_slash [OF assms(1), of q j] img_filename_nonempty [of pdf_name q j]
      hd_in_set by metis
  from join_inject [OF assms(2) img_filename_nonempty h img_filename_nonempty h]
  show ?thesis by (rule img_filename_inject)
qed

lemma extract_page_result:
  "for_each (extract_image w pdf_name output_folder min_width min_height page_num) indexed
     (written, n) = Inr st' \<Longrightarrow>
   st' =
     (written @
      map (\<lambda>ip. (join output_folder (img_filename pdf_name page_num (fst ip)),
                  if pix_n (snd ip) - pix_alpha (snd ip) = 4 then to_rgb (snd ip) else snd ip))
        (filter (\<lambda>ip. pix_width (snd ip) \<ge> min_width \<and> pix_height (snd ip) \<ge> min_height) indexed),
      n + length (filter (\<lambda>ip. pix_width (snd ip) \<ge> min_width \<and> pix_height (snd ip) \<ge> min_height)
                    indexed))"
proof (induction indexed arbitrary: written n)
  case Nil
  then show ?case by simp
next
  case (Cons ip indexed)
  show ?case
  proof (cases "pix_width (snd ip) \<ge> min_width \<and> pix_height (snd ip) \<ge> min_height")
    case False
    then have "extract_image w pdf_name output_folder min_width min_height page_num ip (written, n)
               = Inr (written, n)"
      by (simp add: extract_image_def Let_def)
    with Cons.prems have "for_each (extract_image w pdf_name output_folder min_width min_height
                 page_num) indexed (written, n) = Inr st'" by simp
    from Cons.IH [OF this] False show ?thesis by simp
  next
    case True
    define path where "path = join output_folder (img_filename pdf_name page_num (fst ip))"
    define pix' where
      "pix' = (if pix_n (snd ip) - pix_alpha (snd ip) = 4 then to_rgb (snd ip) else snd ip)"
    have body: "extract_image w pdf_name output_folder min_width min_height page_num ip (written, n)
               = (if can_write w path then Inr (written @ [(path, pix')], n + 1)
                  else Inl LibraryError)"
      using True by (simp add: extract_image_def Let_def path_def pix'_def)
    from Cons.prems have ok: "can_write w path"
      unfolding for_each.simps body by (auto split: if_splits)
    with Cons.prems have "for_each (extract_image w pdf_name output_folder min_width min_height
                 page_num) indexed (written @ [(path, pix')], n + 1) = Inr st'"
      unfolding for_each.simps body by simp
    from Cons.IH [OF this] True show ?thesis by (simp add: path_def pix'_def)
  qed
qed

lemma extract_page_succeeds:
  "(\<And>path. can_write w path) \<Longrightarrow>
   \<exists>st'. for_each (extract_image w pdf_name output_folder min_width min_height page_num) indexed st
           = Inr st'"
  by (induction indexed arbitrary: st) (simp_all add: extract_image_def Let_def)

lemma extract_pages_result:
  "for_each (extract_page w pdf_name output_folder min_width min_height) numbered (written, n)
     = Inr st' \<Longrightarrow>
   st' =
     (written @
      concat (map (\<lambda>np.
         map (\<lambda>ip. (join output_folder (img_filename pdf_name (fst np) (fst ip)),
                     if pix_n (snd ip) - pix_alpha (snd ip) = 4 then to_rgb (snd ip) else snd ip))
           (filter (\<lambda>ip. pix_width (snd ip) \<ge> min_width \<and> pix_height (snd ip) \<ge> min_height)
              (enumerate 0 (embedded (snd np))))) numbered),
      n + length (concat (map (\<lambda>np.
           filter (\<lambda>ip. pix_width (snd ip) \<ge> min_width \<and> pix_height (snd ip) \<ge> min_height)
              (enumerate 0 (embedded (snd np)))) numbered)))"
proof (induction numbered arbitrary: written n)
  case Nil
  then show ?case by simp
next
  case (Cons np numbered)
  from Cons.prems obtain st1 where
    1: "extract_page w pdf_name output_folder min_width min_height np (written, n) = Inr st1"
    and 2: "for_each (extract_page w pdf_name output_folder min_width min_height) numbered st1
            = Inr st'"
    by (auto split: sum.splits)
  from 1 have st1: "st1 =
     (written @
      map (\<lambda>ip. (join output_folder (img_filename pdf_name (fst np) (fst ip)),
                  if pix_n (snd ip) - pix_alpha (snd ip) = 4 then to_rgb (snd ip) else snd ip))
        (filter (\<lambda>ip. pix_width (snd ip) \<ge> min_width \<and> pix_height (snd ip) \<ge> min_height)
           (enumerate 0 (embedded (snd np)))),
      n + length (filter (\<lambda>ip. pix_width (snd ip) \<ge> min_width \<and> pix_height (snd ip) \<ge> min_height)
                    (enumerate 0 (embedded (snd np)))))"
    unfolding extract_page_def by (rule extract_page_result)
  from Cons.IH [OF 2 [unfolded st1] ] show ?case by simp
qed

lemma extract_pages_succeed:
  assumes "\<And>path. can_write w path"
  shows "\<exists>st'. for_each (extract_page w pdf_name output_folder min_width min_height) numbered st
           = Inr st'"
proof (induction numbered arbitrary: st)
  case Nil
  then show ?case by simp
next
  case (Cons np numbered)
  obtain st1 where "extract_page w pdf_name output_folder min_width min_height np st = Inr st1"
    unfolding extract_page_def using extract_page_succeeds [OF assms] by blast
  then show ?case using Cons.IH [of st1] by simp
qed

lemma distinct_concat_enumerate:
  assumes "\<And>n x. distinct (g n x)"
    and "\<And>n m x y. n \<noteq> m \<Longrightarrow> set (g n x) \<inter> set (g m y) = {}"
  shows "distinct (concat (map (\<lambda>np. g (fst np) (snd np)) (enumerate k xs)))"
proof (induction xs arbitrary: k)
  case Nil
  then show ?case by simp
next
  case (Cons x xs)
  have "set (g k x) \<inter> set (concat (map (\<lambda>np. g (fst np) (snd np)) (enumerate (Suc k) xs))) = {}"
  proof -
    have "set (g k x) \<inter> set (g (fst np) (snd np)) = {}" if "np \<in> set (enumerate (Suc k) xs)" for np
    proof -
      from that have "k \<noteq> fst np" by (auto simp: in_set_enumerate_eq)
      then show ?thesis by (rule assms(2))
    qed
    then show ?thesis by auto
  qed
  then show ?case using Cons.IH [of "Suc k"] assms(1) by simp
qed

lemma written_paths:
  "fst ` set (concat (map (\<lambda>np.
         map (\<lambda>ip. (P (fst np) (fst ip), C (snd ip)))
           (filter (\<lambda>ip. F (snd ip)) (enumerate 0 (embedded (snd np)))))
         (enumerate 0 (doc::page list))))
   = {path. \<exists>pn ii. pn < length doc \<and> ii < length (embedded (doc ! pn))
              \<and> F (embedded (doc ! pn) ! ii) \<and> path = P pn ii}"
  (is "?L = ?R")
proof
  show "?L \<subseteq> ?R"
  proof
    fix path assume "path \<in> ?L"
    then obtain np ip where np: "np \<in> set (enumerate 0 doc)"
      and ip: "ip \<in> set (enumerate 0 (embedded (snd np)))" and f: "F (snd ip)"
      and p: "path = P (fst np) (fst ip)"
      by auto
    from np have 1: "fst np < length doc" "snd np = doc ! fst np"
      by (auto simp: in_set_enumerate_eq)
    from ip have 2: "fst ip < length (embedded (snd np))" "snd ip = embedded (snd np) ! fst ip"
      by (auto simp: in_set_enumerate_eq)
    from 1 2 f p show "path \<in> ?R" by auto
  qed
  show "?R \<subseteq> ?L"
  proof
    fix path assume "path \<in> ?R"
    then obtain pn ii where pn: "pn < length doc" and ii: "ii < length (embedded (doc ! pn))"
      and f: "F (embedded (doc ! pn) ! ii)" and p: "path = P pn ii" by blast
    have np: "(pn, doc ! pn) \<in> set (enumerate 0 doc)"
      using pn by (simp add: in_set_enumerate_eq)
    have ip: "(ii, embedded (doc ! pn) ! ii) \<in> set (enumerate 0 (embedded (doc ! pn)))"
      using ii by (simp add: in_set_enumerate_eq)
    have "(P pn ii, C (embedded (doc ! pn) ! ii)) \<in>
          set (map (\<lambda>ip. (P pn (fst ip), C (snd ip)))
           (filter (\<lambda>ip. F (snd ip)) (enumerate 0 (embedded (doc ! pn)))))"
      using ip f by force
    then have "(P pn ii, C (embedded (doc ! pn) ! ii)) \<in>
       set (concat (map (\<lambda>np.
         map (\<lambda>ip. (P (fst np) (fst ip), C (snd ip)))
           (filter (\<lambda>ip. F (snd ip)) (enumerate 0 (embedded (snd np))))) (enumerate 0 doc)))"
      using np by force
    then show "path \<in> ?L" unfolding p by (rule image_eqI [rotated]) simp
  qed
qed

lemma written_distinct:
  assumes "\<And>p i p' i'. P p i = P p' i' \<Longrightarrow> p = p' \<and> i = i'"
  shows "distinct (map fst (concat (map (\<lambda>np.
         map (\<lambda>ip. (P (fst np) (fst ip), C (snd ip)))
           (filter (\<lambda>ip. F (snd ip)) (enumerate 0 (embedded (snd np))))) (enumerate 0 (doc::page list)))))"
proof -
  define g where "g = (\<lambda>n (pg::page). map (\<lambda>ip. P n (fst ip))
           (filter (\<lambda>ip. F (snd ip)) (enumerate 0 (embedded pg))))"
  have d: "distinct (g n x)" for n x
  proof -
    define ys where "ys = map fst (filter (\<lambda>ip. F (snd ip)) (enumerate 0 (embedded x)))"
    have "distinct ys"
      unfolding ys_def by (rule distinct_map_filter) simp
    moreover have "inj_on (P n) (set ys)"
      using assms by (auto simp: inj_on_def)
    ultimately have "distinct (map (P n) ys)"
      by (simp add: distinct_map)
    then show ?thesis by (simp add: g_def ys_def comp_def)
  qed
  have s: "set (g n x) \<inter> set (g m y) = {}" if "n \<noteq> m" for n m x y
    using that assms by (auto simp: g_def)
  have "map fst (concat (map (\<lambda>np.
         map (\<lambda>ip. (P (fst np) (fst ip), C (snd ip)))
           (filter (\<lambda>ip. F (snd ip)) (enumerate 0 (embedded (snd np))))) (enumerate 0 doc)))
     = concat (map (\<lambda>np. g (fst np) (snd np)) (enumerate 0 doc))"
    by (simp add: map_concat comp_def g_def)
  then show ?thesis using distinct_concat_enumerate [of g, OF d s] by simp
qed

lemma written_length:
  "length (concat (map (\<lambda>np. map (f np) (h np)) xs)) = length (concat (map h xs))"
  by (induction xs) simp_all

text \<open>
  Claim C5. When the PDF can be opened and every save comes through, extraction returns.
  Whenever it returns, the count returned is the number of files written, no path is
  written twice, the file named after the base name of the PDF, the 1-based page number
  and the 1-based image index is written exactly when the image at that place is at
  least \<^verbatim>\<open>min_width\<close> wide and \<^verbatim>\<open>min_height\<close> high, and no file of another name is
  written.
\<close>

theorem extraction_writes_filtered:
  assumes "pdfs w pdf_path = Some pdf_document"
  shows "((\<forall>path. can_write w path) \<longrightarrow>
          (\<exists>written image_count.
             extract_images_with_quality_filter w pdf_path output_folder min_width min_height
               = Inr (written, image_count)))
   \<and> (\<forall>written image_count.
        extract_images_with_quality_filter w pdf_path output_folder min_width min_height
          = Inr (written, image_count) \<longrightarrow>
        image_count = length written
        \<and> distinct (map fst written)
        \<and> (\<forall>page_num img_index.
              page_num < length pdf_document \<and>
              img_index < length (embedded (pdf_document ! page_num)) \<longrightarrow>
              (join output_folder
                 (fst (splitext (basename pdf_path)) @ ''_page'' @ str (page_num + 1) @
                  ''_img'' @ str (img_index + 1) @ ''.png'') \<in> fst ` set written)
              = (pix_width (embedded (pdf_document ! page_num) ! img_index) \<ge> min_width \<and>
                 pix_height (embedded (pdf_document ! page_num) ! img_index) \<ge> min_height))
        \<and> (\<forall>path \<in> fst ` set written. \<exists>page_num img_index.
              page_num < length pdf_document \<and>
              img_index < length (embedded (pdf_document ! page_num)) \<and>
              path = join output_folder
                 (fst (splitext (basename pdf_path)) @ ''_page'' @ str (page_num + 1) @
                  ''_img'' @ str (img_index + 1) @ ''.png'')))"
proof (intro conjI allI impI ballI)
  assume all: "\<forall>path. can_write w path"
  then have "\<exists>st'. for_each (extract_page w (fst (splitext (basename pdf_path))) output_folder
                      min_width min_height) (enumerate 0 pdf_document) ([], 0) = Inr st'"
    by (intro extract_pages_succeed) simp
  then show "\<exists>written image_count.
      extract_images_with_quality_filter w pdf_path output_folder min_width min_height
        = Inr (written, image_count)"
    using all by (auto simp: extract_images_with_quality_filter_def assms Let_def)
next
  fix written0 image_count
  assume ret: "extract_images_with_quality_filter w pdf_path output_folder min_width min_height
          = Inr (written0, image_count)"
  define pdf_name where "pdf_name = fst (splitext (basename pdf_path))"
  define P where "P = (\<lambda>p i. join output_folder (img_filename pdf_name p i))"
  define C where "C = (\<lambda>pix::pixmap. if pix_n pix - pix_alpha pix = 4 then to_rgb pix else pix)"
  define F where "F = (\<lambda>pix::pixmap. pix_width pix \<ge> min_width \<and> pix_height pix \<ge> min_height)"
  define written where "written = concat (map (\<lambda>np.
         map (\<lambda>ip. (P (fst np) (fst ip), C (snd ip)))
           (filter (\<lambda>ip. F (snd ip)) (enumerate 0 (embedded (snd np))))) (enumerate 0 pdf_document))"
  have name: "P p i = join output_folder
               (fst (splitext (basename pdf_path)) @ ''_page'' @ str (p + 1) @
                ''_img'' @ str (i + 1) @ ''.png'')" for p i
    by (simp add: P_def img_filename_def pdf_name_def)
  have inj: "P p i = P p' i' \<Longrightarrow> p = p' \<and> i = i'" for p i p' i'
    unfolding P_def pdf_name_def using pdf_name_no_slash by (rule img_path_inject)
  from ret have "for_each (extract_page w pdf_name output_folder min_width min_height)
                   (enumerate 0 pdf_document) ([], 0) = Inr (written0, image_count)"
    by (simp add: extract_images_with_quality_filter_def assms Let_def pdf_name_def
        split: if_splits)
  from extract_pages_result [OF this]
  have res: "written0 = written" "image_count = length written"
    by (simp_all add: written_length written_def P_def C_def F_def)
  have dist: "distinct (map fst written)"
    unfolding written_def using inj by (rule written_distinct)
  have paths: "fst ` set written = {path. \<exists>pn ii. pn < length pdf_document
        \<and> ii < length (embedded (pdf_document ! pn))
        \<and> F (embedded (pdf_document ! pn) ! ii) \<and> path = P pn ii}"
    unfolding written_def by (rule written_paths)
  have iff: "(P p i \<in> fst ` set written) = F (embedded (pdf_document ! p) ! i)"
    if "p < length pdf_document \<and> i < length (embedded (pdf_document ! p))" for p i
    unfolding paths using that inj by blast
  have named: "\<exists>p i. p < length pdf_document \<and> i < length (embedded (pdf_document ! p))
        \<and> path = P p i" if "path \<in> fst ` set written" for path
    using that unfolding paths by blast
  show "image_count = length written0" using res by simp
  show "distinct (map fst written0)" using res dist by simp
  show "(join output_folder
           (fst (splitext (basename pdf_path)) @ ''_page'' @ str (page_num + 1) @
            ''_img'' @ str (img_index + 1) @ ''.png'') \<in> fst ` set written0)
        = (pix_width (embedded (pdf_document ! page_num) ! img_index) \<ge> min_width \<and>
           pix_height (embedded (pdf_document ! page_num) ! img_index) \<ge> min_height)"
    if "page_num < length pdf_document \<and>
        img_index < length (embedded (pdf_document ! page_num))" for page_num img_index
    using iff [OF that] unfolding name F_def res by simp
  show "\<exists>page_num img_index.
          page_num < length pdf_document \<and>
          img_index < length (embedded (pdf_document ! page_num)) \<and>
          path = join output_folder
             (fst (splitext (basename pdf_path)) @ ''_page'' @ str (page_num + 1) @
              ''_img'' @ str (img_index + 1) @ ''.png'')"
    if "path \<in> fst ` set written0" for path
    using named [of path] that unfolding name res by simp
qed

theorem extraction_writes_filtered_witness:
  "pdfs sample_world ''report.pdf'' = Some sample_pdf
   \<and> (\<forall>path. can_write sample_world path)
   \<and> extract_images_with_quality_filter sample_world ''report.pdf'' ''out'' 100 100 =
       Inr ([(''out/report_page1_img1.png'',
              \<lparr>pix_width = 640, pix_height = 480, pix_n = 3, pix_alpha = 0\<rparr>),
             (''out/report_page2_img2.png'',
              \<lparr>pix_width = 800, pix_height = 600, pix_n = 3, pix_alpha = 0\<rparr>)], 2)
   \<and> distinct [''out/report_page1_img1.png'', ''out/report_page2_img2.png'']"
proof -
  have p: "pdfs sample_world ''report.pdf'' = Some sample_pdf"
    by (simp add: sample_world_def)
  have c: "\<forall>path. can_write sample_world path" "path_exists sample_world ''out''"
    by (simp_all add: sample_world_def)
  have n: "fst (splitext (basename ''report.pdf'')) = ''report''" by code_simp
  have j: "join ''out'' (img_filename ''report'' 0 0) = ''out/report_page1_img1.png''"
     "join ''out'' (img_filename ''report'' (Suc 0) (Suc 0)) = ''out/report_page2_img2.png''"
    by code_simp+
  have r: "extract_images_with_quality_filter sample_world ''report.pdf'' ''out'' 100 100 =
       Inr ([(''out/report_page1_img1.png'',
              \<lparr>pix_width = 640, pix_height = 480, pix_n = 3, pix_alpha = 0\<rparr>),
             (''out/report_page2_img2.png'',
              \<lparr>pix_width = 800, pix_height = 600, pix_n = 3, pix_alpha = 0\<rparr>)], 2)"
    unfolding extract_images_with_quality_filter_def p
    by (simp add: Let_def n c sample_pdf_def extract_page_def extract_image_def enumerate_eq_zip
        j to_rgb_def)
  from extraction_writes_filtered [OF p, of "''out''" 100 100] r
  have "distinct (map fst [(''out/report_page1_img1.png'',
              \<lparr>pix_width = 640, pix_height = 480, pix_n = 3, pix_alpha = 0\<rparr>),
             (''out/report_page2_img2.png'',
              \<lparr>pix_width = 800, pix_height = 600, pix_n = 3, pix_alpha = (0::int)\<rparr>)])"
    by blast
  then show ?thesis using p r c by simp
qed

subsection \<open>Image rotation without overwriting\<close>

text \<open>
  What holds for every run with \<^verbatim>\<open>overwrite=False\<close>: the output path of an image is
  never the path of that image, no file disappears, and only output paths change. When no
  image file of the directory bears the output name of another, every image file is left
  as it was, and the counter and the files are as the specification says.
\<close>

lemma rotated_path_differs: "rotated_path direction_text image_path \<noteq> image_path"
proof -
  obtain name ext where s: "splitext image_path = (name, ext)"
    by (cases "splitext image_path")
  from splitext_append [OF s] have "length image_path = length name + length ext" by auto
  then show ?thesis by (auto simp: rotated_path_def s)
qed

lemma rotate_loop_frame:
  assumes "q \<notin> rotated_path direction_text ` set image_files"
  shows "images (fst (rotate_loop angle direction_text False image_files (w, n))) q = images w q"
  using assms
proof (induction image_files arbitrary: w n)
  case Nil
  then show ?case by simp
next
  case (Cons p image_files)
  then have q: "q \<noteq> rotated_path direction_text p"
    and rest: "q \<notin> rotated_path direction_text ` set image_files" by auto
  show ?case
    using Cons.IH [OF rest] q by (simp add: Let_def split: option.splits)
qed

lemma rotate_loop_keeps_files:
  "images w q \<noteq> None \<Longrightarrow>
   images (fst (rotate_loop angle direction_text overwrite image_files (w, n))) q \<noteq> None"
proof (induction image_files arbitrary: w n)
  case Nil
  then show ?case by simp
next
  case (Cons p image_files)
  show ?case
  proof (cases "images w p")
    case None
    then show ?thesis using Cons by simp
  next
    case (Some img)
    show ?thesis
    proof (cases "can_write w (if overwrite then p else rotated_path direction_text p)")
      case False
      then show ?thesis using Cons Some by (simp add: Let_def)
    next
      case True
      have "images (w\<lparr>images := (images w)((if overwrite then p else rotated_path direction_text p)
                 \<mapsto> rotate_image angle img)\<rparr>) q \<noteq> None"
        using Cons.prems by simp
      from Cons.IH [OF this] show ?thesis using Some True by (simp add: Let_def)
    qed
  qed
qed

lemma rotate_loop_originals_untouched:
  assumes "set image_files \<inter> rotated_path direction_text ` set image_files = {}"
    and "p \<in> set image_files"
  shows "images (fst (rotate_loop angle direction_text False image_files (w, n))) p = images w p"
  using assms by (intro rotate_loop_frame) auto

lemma rotate_loop_no_collision:
  assumes "set image_files \<inter> rotated_path direction_text ` set image_files = {}"
  shows "snd (rotate_loop angle direction_text False image_files (w, n)) =
           n + length (filter (\<lambda>p. images w p \<noteq> None \<and> can_write w (rotated_path direction_text p))
                        image_files)
       \<and> dom (images (fst (rotate_loop angle direction_text False image_files (w, n)))) =
           dom (images w) \<union>
           rotated_path direction_text `
             {p \<in> set image_files. images w p \<noteq> None \<and> can_write w (rotated_path direction_text p)}"
  using assms
proof (induction image_files arbitrary: w n)
  case Nil
  then show ?case by simp
next
  case (Cons p image_files)
  have tail: "set image_files \<inter> rotated_path direction_text ` set image_files = {}"
    using Cons.prems by auto
  have apart: "q \<noteq> rotated_path direction_text p" if "q \<in> set image_files" for q
    using Cons.prems that by auto
  show ?case
  proof (cases "images w p \<noteq> None \<and> can_write w (rotated_path direction_text p)")
    case False
    then show ?thesis
      using Cons.IH [OF tail, of w n] by (auto simp: Let_def split: option.splits)
  next
    case True
    then obtain img where img: "images w p = Some img" by auto
    define w' where
      "w' = w\<lparr>images := (images w)(rotated_path direction_text p \<mapsto> rotate_image angle img)\<rparr>"
    have step: "rotate_loop angle direction_text False (p # image_files) (w, n) =
                rotate_loop angle direction_text False image_files (w', n + 1)"
      using True img by (simp add: Let_def w'_def)
    have same: "(images w' q \<noteq> None \<and> can_write w' (rotated_path direction_text q)) =
                (images w q \<noteq> None \<and> can_write w (rotated_path direction_text q))"
      if "q \<in> set image_files" for q
      using apart [OF that] by (simp add: w'_def)
    have f: "filter (\<lambda>q. images w' q \<noteq> None \<and> can_write w' (rotated_path direction_text q)) image_files
           = filter (\<lambda>q. images w q \<noteq> None \<and> can_write w (rotated_path direction_text q)) image_files"
      using same by (rule filter_cong [OF refl])
    have s: "{q \<in> set image_files. images w' q \<noteq> None \<and> can_write w' (rotated_path direction_text q)}
           = {q \<in> set image_files. images w q \<noteq> None \<and> can_write w (rotated_path direction_text q)}"
      using same by blast
    have d: "dom (images w') = insert (rotated_path direction_text p) (dom (images w))"
      by (simp add: w'_def)
    from Cons.IH [OF tail, of w' "n + 1"] show ?thesis
      unfolding step f s d using True by auto
  qed
qed

lemma collision_files:
  "find_image_files collision_world ''pics'' = [''pics/a.png'', ''pics/a_rotated_clockwise.png'']"
  by (simp add: find_image_files_plain collision_world_def sample_world_def endswith_def join_def)

text \<open>
  Claim C9 in a directory that holds \<^verbatim>\<open>a.png\<close> and \<^verbatim>\<open>a_rotated_clockwise.png\<close>, rotated
  clockwise with \<^verbatim>\<open>overwrite=False\<close>. Both files are found and both are rotated, so the
  counter is 2. The rotation of \<^verbatim>\<open>a.png\<close> is saved as \<^verbatim>\<open>a_rotated_clockwise.png\<close>: the
  image that this file held is gone, and only one file is new.
\<close>

theorem rotate_overwrites_other_original:
  "find_image_files collision_world ''pics'' = [''pics/a.png'', ''pics/a_rotated_clockwise.png'']
   \<and> images collision_world ''pics/a_rotated_clockwise.png'' = Some [ [7] ]
   \<and> snd (rotate_images_in_directory collision_world ''pics'' ''clockwise'' False) = 2
   \<and> images (fst (rotate_images_in_directory collision_world ''pics'' ''clockwise'' False))
        ''pics/a_rotated_clockwise.png'' = Some [ [3], [4] ]
   \<and> dom (images (fst (rotate_images_in_directory collision_world ''pics'' ''clockwise'' False)))
        - dom (images collision_world) = {''pics/a_rotated_clockwise_rotated_clockwise.png''}"
proof -
  have p1: "rotated_path ''clockwise'' ''pics/a.png'' = ''pics/a_rotated_clockwise.png''"
    by code_simp
  have p2: "rotated_path ''clockwise'' ''pics/a_rotated_clockwise.png''
            = ''pics/a_rotated_clockwise_rotated_clockwise.png''"
    by code_simp
  have r1: "rotate_image (- 90) [ [3, 4] ] = [ [3], [4] ]" by code_simp
  have r2: "rotate_image (- 90) [ [3], [4] ] = [ [4, 3] ]" by code_simp
  have l: "lower ''clockwise'' = ''clockwise''" by code_simp
  have ex: "path_exists collision_world ''pics''" by (simp add: collision_world_def sample_world_def)
  have cw: "can_write (collision_world\<lparr>images := m\<rparr>) p" "can_write collision_world p" for m p
    by (simp_all add: collision_world_def sample_world_def)
  have i0: "images collision_world =
      [''pics/a.png'' \<mapsto> [ [3, 4] ], ''pics/a_rotated_clockwise.png'' \<mapsto> [ [7] ] ]"
    by (simp add: collision_world_def)
  have loop: "rotate_loop (- 90) ''clockwise'' False
        [''pics/a.png'', ''pics/a_rotated_clockwise.png''] (collision_world, 0)
      = (collision_world\<lparr>images :=
           [''pics/a.png'' \<mapsto> [ [3, 4] ], ''pics/a_rotated_clockwise.png'' \<mapsto> [ [3], [4] ],
            ''pics/a_rotated_clockwise_rotated_clockwise.png'' \<mapsto> [ [4, 3] ] ]\<rparr>, 2)"
    by (simp add: Let_def p1 p2 r1 r2 cw i0)
  have res: "rotate_images_in_directory collision_world ''pics'' ''clockwise'' False
      = (collision_world\<lparr>images :=
           [''pics/a.png'' \<mapsto> [ [3, 4] ], ''pics/a_rotated_clockwise.png'' \<mapsto> [ [3], [4] ],
            ''pics/a_rotated_clockwise_rotated_clockwise.png'' \<mapsto> [ [4, 3] ] ]\<rparr>, 2)"
    by (simp add: rotate_images_in_directory_def ex l collision_files loop del: rotate_loop.simps)
  show ?thesis
    unfolding res by (auto simp: collision_files i0)
qed

end
